theory Spec2Isabelle
  imports Main "HOL-Library.Char_ord" "HOL-Library.List_Lexorder"
begin

section \<open>Python values as the script handles them\<close>

text \<open>
  The script \<^verbatim>\<open>app.py\<close> walks the reply of the Responses API with \<^verbatim>\<open>getattr\<close>,
  \<^verbatim>\<open>hasattr\<close>, \<^verbatim>\<open>or\<close> and \<^verbatim>\<open>for\<close>, so what it does depends on the dynamic shape of
  the reply. A reply is therefore a value of \<open>pyval\<close>: \<^verbatim>\<open>None\<close>, a string, a list, or an
  object given by its attributes (an association list from attribute names to values;
  the first entry of a name is the attribute's value). Numbers and booleans are left
  out: the script never computes with them.

  Exceptions are values of \<open>error\<close>. \<open>APIError\<close> stands for whatever the client
  library raises when a call to the service fails.
\<close>

datatype pyval =
    PNone
  | PStr string
  | PList "pyval list"
  | PObj "(string \<times> pyval) list"

datatype error = AttributeError | TypeError | APIError string

text \<open>Truth value of a Python value, as \<^verbatim>\<open>x or y\<close> and \<^verbatim>\<open>if x\<close> test it.\<close>

fun truthy :: "pyval \<Rightarrow> bool" where
  "truthy PNone = False"
| "truthy (PStr s) = (s \<noteq> [])"
| "truthy (PList xs) = (xs \<noteq> [])"
| "truthy (PObj as) = True"

definition py_or :: "pyval \<Rightarrow> pyval \<Rightarrow> pyval" where
  "py_or x y = (if truthy x then x else y)"

text \<open>
  Attribute lookup. Only the names \<^verbatim>\<open>output_text\<close>, \<^verbatim>\<open>output\<close>, \<^verbatim>\<open>content\<close>,
  \<^verbatim>\<open>type\<close>, \<^verbatim>\<open>tool_name\<close>, \<^verbatim>\<open>results\<close> and \<^verbatim>\<open>file_name\<close> are ever looked up, and
  \<^verbatim>\<open>None\<close>, strings and lists have no attribute of these names.
\<close>

fun py_attr :: "pyval \<Rightarrow> string \<Rightarrow> pyval option" where
  "py_attr (PObj as) n = map_of as n"
| "py_attr v n = None"

text \<open>
  \<^verbatim>\<open>getattr(x, n, d)\<close> and \<^verbatim>\<open>x.n\<close>. \<^verbatim>\<open>hasattr(x, n)\<close> holds when \<open>py_attr x n\<close> is not
  \<open>None\<close>.
\<close>

definition py_getattr :: "pyval \<Rightarrow> string \<Rightarrow> pyval \<Rightarrow> pyval" where
  "py_getattr x n d = (case py_attr x n of None \<Rightarrow> d | Some v \<Rightarrow> v)"

definition py_dot :: "pyval \<Rightarrow> string \<Rightarrow> error + pyval" where
  "py_dot x n = (case py_attr x n of None \<Rightarrow> Inl AttributeError | Some v \<Rightarrow> Inr v)"

text \<open>
  The elements a \<^verbatim>\<open>for\<close> loop runs over: those of a list, the one-character strings of
  a string; \<^verbatim>\<open>None\<close> and a plain object are not iterable (\<^verbatim>\<open>TypeError\<close>).
\<close>

fun py_iter :: "pyval \<Rightarrow> error + pyval list" where
  "py_iter (PList xs) = Inr xs"
| "py_iter (PStr s) = Inr (map (\<lambda>ch. PStr [ch]) s)"
| "py_iter PNone = Inl TypeError"
| "py_iter (PObj as) = Inl TypeError"

text \<open>
  \<^verbatim>\<open>set(xs)\<close> hashes every element: a list is unhashable, and so is an object that
  compares by its attributes (a class with \<^verbatim>\<open>__eq__\<close> and no \<^verbatim>\<open>__hash__\<close>, as the
  client library's models are). The elements of a set are in no particular order, but
  \<^verbatim>\<open>sorted\<close> of distinct, totally ordered elements does not depend on it.
\<close>

fun hashable :: "pyval \<Rightarrow> bool" where
  "hashable PNone = True"
| "hashable (PStr s) = True"
| "hashable (PList xs) = False"
| "hashable (PObj as) = False"

definition py_set :: "pyval list \<Rightarrow> error + pyval list" where
  "py_set xs = (if list_all hashable xs then Inr (remdups xs) else Inl TypeError)"

text \<open>
  \<^verbatim>\<open>sorted(xs)\<close> on the elements of a set. Up to one element nothing is compared.
  Otherwise every element is compared with some other one, and \<^verbatim>\<open><\<close> is defined between
  two strings only (by code points, a proper prefix first); \<^verbatim>\<open>None\<close> against anything
  raises \<^verbatim>\<open>TypeError\<close>.
\<close>

fun strs_of :: "pyval list \<Rightarrow> string list option" where
  "strs_of [] = Some []"
| "strs_of (PStr s # xs) = (case strs_of xs of None \<Rightarrow> None | Some ss \<Rightarrow> Some (s # ss))"
| "strs_of (v # xs) = None"

definition py_sorted :: "pyval list \<Rightarrow> error + pyval list" where
  "py_sorted xs =
     (if length xs \<le> 1 then Inr xs
      else case strs_of xs of
             None \<Rightarrow> Inl TypeError
           | Some ss \<Rightarrow> Inr (map PStr (sort ss)))"

text \<open>\<^verbatim>\<open>sorted(set(used_files))\<close>.\<close>

definition sorted_set :: "pyval list \<Rightarrow> error + pyval list" where
  "sorted_set xs = (case py_set xs of Inl e \<Rightarrow> Inl e | Inr ys \<Rightarrow> py_sorted ys)"

text \<open>The order \<^verbatim>\<open><\<close> of Python on the values that have one.\<close>

fun py_less :: "pyval \<Rightarrow> pyval \<Rightarrow> bool" where
  "py_less (PStr a) (PStr b) = (a < b)"
| "py_less x y = False"

section \<open>Session state, requests and the client\<close>

text \<open>
  A chat message is the dict \<^verbatim>\<open>{"role": ..., "content": ...}\<close>. The content of an
  assistant message is whatever \<^verbatim>\<open>response.output_text or "_No text output._"\<close> gave.
\<close>

record message =
  role :: string
  content :: pyval

text \<open>
  \<^verbatim>\<open>st.session_state\<close>: each key is absent (\<open>None\<close>) until the script's first lines
  set it.
\<close>

record session_state =
  vs_id :: "string option"
  indexed_filenames :: "string set option"
  chat_history :: "message list option"
  model_choice :: "string option"

text \<open>The keyword arguments of \<^verbatim>\<open>client.responses.create\<close>.\<close>

record tool =
  tool_type :: string
  vector_store_ids :: "string list"

record request =
  model :: string
  instructions :: string
  tools :: "tool list"
  input :: "message list"

text \<open>
  The calls the script makes to the service, in the order it makes them. The log is not
  a variable of the script: it records what was submitted, so that claims about the
  submitted requests can be stated.
\<close>

datatype api_call =
    VectorStoresCreate string
  | ResponsesCreate request
  | FilesCreate string string
  | VectorStoresFilesCreate string string

text \<open>
  The service: each call returns its result (the id of the created store or file, the
  reply object) or raises. Its answer may depend on every call made before.
\<close>

record client =
  vector_stores_create :: "api_call list \<Rightarrow> string \<Rightarrow> error + string"
  responses_create :: "api_call list \<Rightarrow> request \<Rightarrow> error + pyval"
  files_create :: "api_call list \<Rightarrow> string \<Rightarrow> string \<Rightarrow> error + string"
  vector_stores_files_create :: "api_call list \<Rightarrow> string \<Rightarrow> string \<Rightarrow> error + unit"

section \<open>\<^verbatim>\<open>rag_call\<close>\<close>

text \<open>
  The innermost loop, lines 63 to 65: \<^verbatim>\<open>used_files\<close> grows by the \<^verbatim>\<open>file_name\<close> of
  each result entry that has one. Nothing in the body raises.
\<close>

fun scan_results :: "pyval list \<Rightarrow> pyval list \<Rightarrow> pyval list" where
  "scan_results [] used = used"
| "scan_results (r # rs) used =
     scan_results rs
       (case py_attr r ''file_name'' of None \<Rightarrow> used | Some v \<Rightarrow> used @ [v])"

text \<open>
  One content item, lines 62 to 65. The result is the exception that left the loop (if
  any) and \<^verbatim>\<open>used_files\<close> as it is at that moment: \<^verbatim>\<open>c.results\<close> raises when the
  attribute is missing, and iterating \<^verbatim>\<open>c.results or []\<close> raises when it is not iterable.
\<close>

definition is_file_search_result :: "pyval \<Rightarrow> bool" where
  "is_file_search_result c =
     (py_getattr c ''type'' (PStr '''') = PStr ''tool_result'' \<and>
      py_getattr c ''tool_name'' (PStr '''') = PStr ''file_search'')"

definition scan_item :: "pyval \<Rightarrow> pyval list \<Rightarrow> error option \<times> pyval list" where
  "scan_item c used =
     (if is_file_search_result c then
        (case py_dot c ''results'' of
           Inl e \<Rightarrow> (Some e, used)
         | Inr res \<Rightarrow>
             (case py_iter (py_or res (PList [])) of
                Inl e \<Rightarrow> (Some e, used)
              | Inr rs \<Rightarrow> (None, scan_results rs used)))
      else (None, used))"

fun scan_content :: "pyval list \<Rightarrow> pyval list \<Rightarrow> error option \<times> pyval list" where
  "scan_content [] used = (None, used)"
| "scan_content (c # cs) used =
     (case scan_item c used of
        (Some e, used') \<Rightarrow> (Some e, used')
      | (None, used') \<Rightarrow> scan_content cs used')"

text \<open>One block, line 61: \<^verbatim>\<open>for c in getattr(block, "content", []) or []\<close>.\<close>

definition scan_block :: "pyval \<Rightarrow> pyval list \<Rightarrow> error option \<times> pyval list" where
  "scan_block block used =
     (case py_iter (py_or (py_getattr block ''content'' (PList [])) (PList [])) of
        Inl e \<Rightarrow> (Some e, used)
      | Inr cs \<Rightarrow> scan_content cs used)"

fun scan_blocks :: "pyval list \<Rightarrow> pyval list \<Rightarrow> error option \<times> pyval list" where
  "scan_blocks [] used = (None, used)"
| "scan_blocks (b # bs) used =
     (case scan_block b used of
        (Some e, used') \<Rightarrow> (Some e, used')
      | (None, used') \<Rightarrow> scan_blocks bs used')"

text \<open>
  The body of the \<^verbatim>\<open>try\<close>, lines 60 to 65, from \<^verbatim>\<open>used_files = []\<close>: the exception
  raised in it (if any) and \<^verbatim>\<open>used_files\<close> when it was left.
\<close>

definition scan_output :: "pyval \<Rightarrow> error option \<times> pyval list" where
  "scan_output response =
     (case py_dot response ''output'' of
        Inl e \<Rightarrow> (Some e, [])
      | Inr out \<Rightarrow>
          (case py_iter (py_or out (PList [])) of
             Inl e \<Rightarrow> (Some e, [])
           | Inr blocks \<Rightarrow> scan_blocks blocks []))"

text \<open>
  \<^verbatim>\<open>try: ... except Exception: pass\<close>, lines 58 to 67: the exception is dropped,
  \<^verbatim>\<open>used_files\<close> stays as the loop left it.
\<close>

definition used_files_of :: "pyval \<Rightarrow> pyval list" where
  "used_files_of response = snd (scan_output response)"

definition placeholder :: string where
  "placeholder = ''_No text output._''"

text \<open>
  \<^verbatim>\<open>rag_call(messages, instructions)\<close>, lines 38 to 69. It reads \<^verbatim>\<open>model_choice\<close> and
  \<^verbatim>\<open>vs_id\<close> of the session state, submits one request, and returns
  \<^verbatim>\<open>(answer_text, sorted(set(used_files)))\<close> or raises; the second component is the log
  with the request appended.
\<close>

definition rag_request :: "string \<Rightarrow> string \<Rightarrow> message list \<Rightarrow> string \<Rightarrow> request" where
  "rag_request m v messages instr =
     \<lparr>model = m, instructions = instr,
      tools = [\<lparr>tool_type = ''file_search'', vector_store_ids = [v]\<rparr>],
      input = messages\<rparr>"

definition rag_call ::
  "client \<Rightarrow> session_state \<Rightarrow> api_call list \<Rightarrow> message list \<Rightarrow> string \<Rightarrow>
     (error + pyval \<times> pyval list) \<times> api_call list" where
  "rag_call c s log messages instr =
     (case model_choice s of
        None \<Rightarrow> (Inl AttributeError, log)
      | Some m \<Rightarrow>
     (case vs_id s of
        None \<Rightarrow> (Inl AttributeError, log)
      | Some v \<Rightarrow>
     (let req = rag_request m v messages instr;
          log' = log @ [ResponsesCreate req]
      in case responses_create c log req of
           Inl e \<Rightarrow> (Inl e, log')
         | Inr response \<Rightarrow>
        (case py_dot response ''output_text'' of
           Inl e \<Rightarrow> (Inl e, log')
         | Inr t \<Rightarrow>
        (let answer_text = py_or t (PStr placeholder)
         in case sorted_set (used_files_of response) of
              Inl e \<Rightarrow> (Inl e, log')
            | Inr fs \<Rightarrow> (Inr (answer_text, fs), log'))))))"

section \<open>\<^verbatim>\<open>ask_model\<close>\<close>

text \<open>
  \<^verbatim>\<open>ask_model(question, instructions, update_history)\<close>, lines 72 to 91. The message
  list is a fresh copy of the history with the question appended. When \<^verbatim>\<open>rag_call\<close>
  raises, the history has not been touched. The result carries the session state after
  the call.
\<close>

definition ask_model ::
  "client \<Rightarrow> session_state \<Rightarrow> api_call list \<Rightarrow> string \<Rightarrow> string \<Rightarrow> bool \<Rightarrow>
     (error + pyval \<times> pyval list) \<times> session_state \<times> api_call list" where
  "ask_model c s log question instr update_history =
     (case chat_history s of
        None \<Rightarrow> (Inl AttributeError, s, log)
      | Some h \<Rightarrow>
     (let messages =
            map (\<lambda>msg. \<lparr>role = role msg, content = content msg\<rparr>) h
              @ [\<lparr>role = ''user'', content = PStr question\<rparr>]
      in case rag_call c s log messages instr of
           (Inl e, log') \<Rightarrow> (Inl e, s, log')
         | (Inr (answer_text, used_files), log') \<Rightarrow>
             (if update_history then
                (Inr (answer_text, used_files),
                 s\<lparr>chat_history :=
                     Some (h @ [\<lparr>role = ''user'', content = PStr question\<rparr>,
                                \<lparr>role = ''assistant'', content = answer_text\<rparr>])\<rparr>,
                 log')
              else (Inr (answer_text, used_files), s, log'))))"

section \<open>The script, top to bottom\<close>

text \<open>
  Streamlit runs the whole script again on every interaction, with the session state
  kept from the run before. What the widgets return in one run:
\<close>

record uploaded_file =
  name :: string
  bytes :: string

record ui_input =
  uploaded_files :: "uploaded_file list"
  selectbox :: string
  follow_up :: "string option"
  button :: bool

definition store_name :: string where
  "store_name = ''real_estate_due_diligence_store''"

text \<open>Lines 21 to 23: the vector store is created when the key \<^verbatim>\<open>vs_id\<close> is absent.\<close>

definition init_vs_id ::
  "client \<Rightarrow> session_state \<Rightarrow> api_call list \<Rightarrow> error option \<times> session_state \<times> api_call list" where
  "init_vs_id c s log =
     (case vs_id s of
        Some v \<Rightarrow> (None, s, log)
      | None \<Rightarrow>
          (case vector_stores_create c log store_name of
             Inl e \<Rightarrow> (Some e, s, log @ [VectorStoresCreate store_name])
           | Inr v \<Rightarrow> (None, s\<lparr>vs_id := Some v\<rparr>, log @ [VectorStoresCreate store_name])))"

text \<open>Lines 26 to 35: the other three keys get their defaults when absent.\<close>

definition init_defaults :: "session_state \<Rightarrow> session_state" where
  "init_defaults s =
     s\<lparr>indexed_filenames :=
         (case indexed_filenames s of None \<Rightarrow> Some {} | Some ns \<Rightarrow> Some ns),
       chat_history :=
         (case chat_history s of None \<Rightarrow> Some [] | Some h \<Rightarrow> Some h),
       model_choice :=
         (case model_choice s of None \<Rightarrow> Some ''gpt-5-mini'' | Some m \<Rightarrow> Some m)\<rparr>"

definition init_session ::
  "client \<Rightarrow> session_state \<Rightarrow> api_call list \<Rightarrow> error option \<times> session_state \<times> api_call list" where
  "init_session c s log =
     (case init_vs_id c s log of
        (Some e, s1, log1) \<Rightarrow> (Some e, s1, log1)
      | (None, s1, log1) \<Rightarrow> (None, init_defaults s1, log1))"

text \<open>
  The body of the loop over the uploaded files, lines 109 to 119, on the session state,
  \<^verbatim>\<open>newly_indexed_count\<close> and the log. An exception of either call leaves the loop
  (and the script) before \<^verbatim>\<open>indexed_filenames.add\<close> and the increment.
\<close>

definition index_file ::
  "client \<Rightarrow> uploaded_file \<Rightarrow> session_state \<times> nat \<times> api_call list \<Rightarrow>
     error option \<times> session_state \<times> nat \<times> api_call list" where
  "index_file c f st =
     (case st of (s, n, log) \<Rightarrow>
     (case indexed_filenames s of
        None \<Rightarrow> (Some AttributeError, s, n, log)
      | Some names \<Rightarrow>
          if name f \<notin> names then
            (let log1 = log @ [FilesCreate (name f) (bytes f)]
             in case files_create c log (name f) (bytes f) of
                  Inl e \<Rightarrow> (Some e, s, n, log1)
                | Inr file_id \<Rightarrow>
                    (case vs_id s of
                       None \<Rightarrow> (Some AttributeError, s, n, log1)
                     | Some v \<Rightarrow>
                         (let log2 = log1 @ [VectorStoresFilesCreate v file_id]
                          in case vector_stores_files_create c log1 v file_id of
                               Inl e \<Rightarrow> (Some e, s, n, log2)
                             | Inr u \<Rightarrow>
                                 (None,
                                  s\<lparr>indexed_filenames := Some (insert (name f) names)\<rparr>,
                                  n + 1, log2))))
          else (None, s, n, log)))"

fun index_loop ::
  "client \<Rightarrow> uploaded_file list \<Rightarrow> session_state \<times> nat \<times> api_call list \<Rightarrow>
     error option \<times> session_state \<times> nat \<times> api_call list" where
  "index_loop c [] st = (None, st)"
| "index_loop c (f # fs) st =
     (case index_file c f st of
        (Some e, st') \<Rightarrow> (Some e, st')
      | (None, st') \<Rightarrow> index_loop c fs st')"

text \<open>Lines 104 to 119: \<^verbatim>\<open>newly_indexed_count = 0\<close>, then the loop if any file was given.\<close>

definition upload_section ::
  "client \<Rightarrow> uploaded_file list \<Rightarrow> session_state \<Rightarrow> api_call list \<Rightarrow>
     error option \<times> session_state \<times> nat \<times> api_call list" where
  "upload_section c files s log =
     (if files \<noteq> [] then index_loop c files (s, 0, log) else (None, s, 0, log))"

text \<open>Lines 140 to 144: the selected model is read and replaced by the widget's value.\<close>

definition model_section :: "string \<Rightarrow> session_state \<Rightarrow> error + session_state" where
  "model_section sel s =
     (case model_choice s of
        None \<Rightarrow> Inl AttributeError
      | Some m \<Rightarrow> Inr (s\<lparr>model_choice := Some sel\<rparr>))"

definition chat_instructions :: string where
  "chat_instructions =
     ''You are a real estate due diligence analyst. '' @
     ''Use ONLY the uploaded documents (inspection reports, seller disclosures, appraisals, '' @
     ''HOA documents, etc.) to answer. Highlight major risks, estimated impact, and any '' @
     ''missing information. When possible, reference the source filenames.''"

definition investor_prompt :: string where
  "investor_prompt =
     ''Create an investor-style memo for this property based ONLY on the uploaded documents. '' @
     ''Include the following sections:'' @ [CHR 0x0A] @
     ''1. High-Level Summary'' @ [CHR 0x0A] @
     ''2. Property Condition Overview'' @ [CHR 0x0A] @
     ''3. Major Risks (with severity)'' @ [CHR 0x0A] @
     ''4. Recommended Repairs / Capex Items'' @ [CHR 0x0A] @
     ''5. Potential Upside or Opportunities'' @ [CHR 0x0A] @
     ''6. Overall Recommendation (e.g., Buy / Cautious Buy / Pass)'' @ [CHR 0x0A]"

definition investor_instructions :: string where
  "investor_instructions =
     ''You are a real estate investment analyst. '' @
     ''Write clear, concise, investor-ready memos. '' @
     ''Be specific and tie every claim back to the uploaded documents wherever possible.''"

text \<open>
  Lines 165 to 180: a chat turn when the chat input returned a non-empty text
  (\<open>None\<close>: no turn in this run).
\<close>

definition chat_section ::
  "client \<Rightarrow> string option \<Rightarrow> session_state \<Rightarrow> api_call list \<Rightarrow>
     ((error + pyval \<times> pyval list) \<times> session_state \<times> api_call list) option" where
  "chat_section c fu s log =
     (case fu of
        None \<Rightarrow> None
      | Some q \<Rightarrow> if q = [] then None else Some (ask_model c s log q chat_instructions True))"

text \<open>
  Lines 200 to 226, the handler of the button: the messages are built from the history
  and \<^verbatim>\<open>rag_call\<close> is called directly; nothing is written to the session state.
\<close>

definition investor_summary ::
  "client \<Rightarrow> session_state \<Rightarrow> api_call list \<Rightarrow>
     (error + pyval \<times> pyval list) \<times> session_state \<times> api_call list" where
  "investor_summary c s log =
     (case chat_history s of
        None \<Rightarrow> (Inl AttributeError, s, log)
      | Some h \<Rightarrow>
     (let messages =
            map (\<lambda>msg. \<lparr>role = role msg, content = content msg\<rparr>) h
              @ [\<lparr>role = ''user'', content = PStr investor_prompt\<rparr>]
      in case rag_call c s log messages investor_instructions of
           (r, log') \<Rightarrow> (r, s, log')))"

text \<open>
  How a run of the script ends: an exception, \<^verbatim>\<open>st.rerun()\<close> after a chat turn, or the
  last line (with the investor memo when one was generated).
\<close>

datatype outcome =
    Raised error
  | Rerun
  | Done "(pyval \<times> pyval list) option"

definition summary_section ::
  "client \<Rightarrow> bool \<Rightarrow> session_state \<Rightarrow> api_call list \<Rightarrow> outcome \<times> session_state \<times> api_call list" where
  "summary_section c pressed s log =
     (if pressed then
        (case investor_summary c s log of
           (Inl e, s', log') \<Rightarrow> (Raised e, s', log')
         | (Inr r, s', log') \<Rightarrow> (Done (Some r), s', log'))
      else (Done None, s, log))"

text \<open>
  Sections 3 and 4 of the script, lines 152 to 232: both are skipped while no file is
  indexed; a chat turn ends the run with \<^verbatim>\<open>st.rerun()\<close>, so the button is not reached.
\<close>

definition chat_and_summary ::
  "client \<Rightarrow> ui_input \<Rightarrow> session_state \<Rightarrow> api_call list \<Rightarrow> outcome \<times> session_state \<times> api_call list" where
  "chat_and_summary c ui s log =
     (case indexed_filenames s of
        None \<Rightarrow> (Raised AttributeError, s, log)
      | Some names \<Rightarrow>
          if names = {} then (Done None, s, log)
          else
            (case chat_history s of
               None \<Rightarrow> (Raised AttributeError, s, log)
             | Some h \<Rightarrow>
                 (case chat_section c (follow_up ui) s log of
                    Some (Inl e, s', log') \<Rightarrow> (Raised e, s', log')
                  | Some (Inr r, s', log') \<Rightarrow> (Rerun, s', log')
                  | None \<Rightarrow> summary_section c (button ui) s log)))"

text \<open>
  One run of the script on the session state the run before left. Lines 121 to 132 only
  display the count and the indexed names; they read keys that the first lines have set
  and change nothing.
\<close>

definition script_run ::
  "client \<Rightarrow> ui_input \<Rightarrow> session_state \<Rightarrow> api_call list \<Rightarrow> outcome \<times> session_state \<times> api_call list" where
  "script_run c ui s log =
     (case init_session c s log of
        (Some e, s1, log1) \<Rightarrow> (Raised e, s1, log1)
      | (None, s1, log1) \<Rightarrow>
     (case upload_section c (uploaded_files ui) s1 log1 of
        (Some e, s2, n, log2) \<Rightarrow> (Raised e, s2, log2)
      | (None, s2, n, log2) \<Rightarrow>
     (case model_section (selectbox ui) s2 of
        Inl e \<Rightarrow> (Raised e, s2, log2)
      | Inr s3 \<Rightarrow> chat_and_summary c ui s3 log2)))"

text \<open>
  A session: the runs of the script one after the other, from the given state. The
  result lists how each run ended.
\<close>

fun session_runs ::
  "client \<Rightarrow> ui_input list \<Rightarrow> session_state \<times> api_call list \<Rightarrow>
     outcome list \<times> session_state \<times> api_call list" where
  "session_runs c [] st = ([], st)"
| "session_runs c (ui # uis) st =
     (case st of (s, log) \<Rightarrow>
     (case script_run c ui s log of (out, s', log') \<Rightarrow>
     (case session_runs c uis (s', log') of (outs, st'') \<Rightarrow> (out # outs, st''))))"

text \<open>The session state of a new session: no key is set.\<close>

definition new_session :: session_state where
  "new_session =
     \<lparr>vs_id = None, indexed_filenames = None, chat_history = None, model_choice = None\<rparr>"

section \<open>Notions the claims are stated with\<close>

text \<open>
  A file name is cited by a reply when some block of its output has a content item of
  type \<^verbatim>\<open>tool_result\<close> and tool name \<^verbatim>\<open>file_search\<close> with a result entry whose
  \<^verbatim>\<open>file_name\<close> it is. These four predicates follow the wording of the claim, not the
  loops of \<^verbatim>\<open>rag_call\<close>.
\<close>

definition entry_cites :: "pyval \<Rightarrow> pyval \<Rightarrow> bool" where
  "entry_cites f r = (py_attr r ''file_name'' = Some f)"

definition item_cites :: "pyval \<Rightarrow> pyval \<Rightarrow> bool" where
  "item_cites f c =
     (py_attr c ''type'' = Some (PStr ''tool_result'') \<and>
      py_attr c ''tool_name'' = Some (PStr ''file_search'') \<and>
      (case py_attr c ''results'' of
         None \<Rightarrow> False
       | Some res \<Rightarrow>
           (case py_iter (py_or res (PList [])) of
              Inl e \<Rightarrow> False
            | Inr rs \<Rightarrow> list_ex (entry_cites f) rs)))"

definition block_cites :: "pyval \<Rightarrow> pyval \<Rightarrow> bool" where
  "block_cites f b =
     (case py_attr b ''content'' of
        None \<Rightarrow> False
      | Some cont \<Rightarrow>
          (case py_iter (py_or cont (PList [])) of
             Inl e \<Rightarrow> False
           | Inr cs \<Rightarrow> list_ex (item_cites f) cs))"

definition response_cites :: "pyval \<Rightarrow> pyval \<Rightarrow> bool" where
  "response_cites f response =
     (case py_attr response ''output'' of
        None \<Rightarrow> False
      | Some out \<Rightarrow>
          (case py_iter (py_or out (PList [])) of
             Inl e \<Rightarrow> False
           | Inr bs \<Rightarrow> list_ex (block_cites f) bs))"

text \<open>
  A call names the store \<open>v\<close> when it is a request whose one tool searches \<open>v\<close> alone, or
  the attachment of a file to \<open>v\<close>. Uploading the bytes of a file and creating the store
  name no store.
\<close>

fun uses_store :: "string \<Rightarrow> api_call \<Rightarrow> bool" where
  "uses_store v (ResponsesCreate r) = (map vector_store_ids (tools r) = [[v]])"
| "uses_store v (VectorStoresFilesCreate v' file_id) = (v' = v)"
| "uses_store v (FilesCreate n b) = True"
| "uses_store v (VectorStoresCreate n) = True"

fun is_store_creation :: "api_call \<Rightarrow> bool" where
  "is_store_creation (VectorStoresCreate n) = True"
| "is_store_creation call = False"

text \<open>
  The calls a session with store \<open>v\<close> may add to the log: each names \<open>v\<close> when it names
  a store, and none creates a store.
\<close>

definition only_store :: "string \<Rightarrow> api_call list \<Rightarrow> bool" where
  "only_store v new = (list_all (uses_store v) new \<and> \<not> list_ex is_store_creation new)"

text \<open>
  A log agrees with a session state when, with no store assigned yet, it holds attempts
  to create one only, and otherwise every call that names a store names the assigned one.
\<close>

definition store_consistent :: "session_state \<Rightarrow> api_call list \<Rightarrow> bool" where
  "store_consistent s log =
     (case vs_id s of
        None \<Rightarrow> list_all is_store_creation log
      | Some v \<Rightarrow> list_all (uses_store v) log)"

text \<open>
  The transcript of a session: the list under the key \<^verbatim>\<open>chat_history\<close>, empty while
  the key is not set.
\<close>

definition history_of :: "session_state \<Rightarrow> message list" where
  "history_of s = (case chat_history s of None \<Rightarrow> [] | Some h \<Rightarrow> h)"

text \<open>The two entries a chat turn adds to the history.\<close>

definition turn_entries :: "string \<Rightarrow> pyval \<Rightarrow> message list" where
  "turn_entries question answer_text =
     [\<lparr>role = ''user'', content = PStr question\<rparr>,
      \<lparr>role = ''assistant'', content = answer_text\<rparr>]"

section \<open>Concrete services and replies\<close>

text \<open>
  A reply with a repeated citation, out of order; a reply whose second content item has
  no \<^verbatim>\<open>results\<close> attribute; a reply with no text and no output.
\<close>

definition cited_reply :: pyval where
  "cited_reply =
     PObj [(''output_text'', PStr ''Roof is in fair condition.''),
           (''output'',
            PList [PObj [(''content'',
              PList [PObj [(''type'', PStr ''tool_result''),
                           (''tool_name'', PStr ''file_search''),
                           (''results'',
                            PList [PObj [(''file_name'', PStr ''b.pdf'')],
                                   PObj [(''file_name'', PStr ''a.pdf'')],
                                   PObj [(''file_name'', PStr ''b.pdf'')]])]])]])]"

definition broken_reply :: pyval where
  "broken_reply =
     PObj [(''output_text'', PStr ''Roof is in fair condition.''),
           (''output'',
            PList [PObj [(''content'',
              PList [PObj [(''type'', PStr ''tool_result''),
                           (''tool_name'', PStr ''file_search''),
                           (''results'', PList [PObj [(''file_name'', PStr ''a.pdf'')]])],
                     PObj [(''type'', PStr ''tool_result''),
                           (''tool_name'', PStr ''file_search'')]])]])]"

definition silent_reply :: pyval where
  "silent_reply = PObj [(''output_text'', PStr []), (''output'', PNone)]"

text \<open>A service that answers every call, and one that refuses every upload.\<close>

definition replying_client :: "pyval \<Rightarrow> client" where
  "replying_client reply =
     \<lparr>vector_stores_create = (\<lambda>log n. Inr ''vs_1''),
      responses_create = (\<lambda>log req. Inr reply),
      files_create = (\<lambda>log n b. Inr (''file-'' @ n)),
      vector_stores_files_create = (\<lambda>log v file_id. Inr ())\<rparr>"

definition refusing_client :: client where
  "refusing_client =
     \<lparr>vector_stores_create = (\<lambda>log n. Inr ''vs_1''),
      responses_create = (\<lambda>log req. Inl (APIError ''rate limit'')),
      files_create = (\<lambda>log n b. Inl (APIError ''quota'')),
      vector_stores_files_create = (\<lambda>log v file_id. Inl (APIError ''quota''))\<rparr>"

definition attach_refusing_client :: client where
  "attach_refusing_client =
     \<lparr>vector_stores_create = (\<lambda>log n. Inr ''vs_1''),
      responses_create = (\<lambda>log req. Inl (APIError ''rate limit'')),
      files_create = (\<lambda>log n b. Inr (''file-'' @ n)),
      vector_stores_files_create = (\<lambda>log v file_id. Inl (APIError ''quota''))\<rparr>"

text \<open>An uploaded file, sessions before and after it is indexed, and widget values.\<close>

definition inspection_pdf :: uploaded_file where
  "inspection_pdf = \<lparr>name = ''inspection.pdf'', bytes = ''%PDF-1.7''\<rparr>"

definition fresh_session :: session_state where
  "fresh_session =
     \<lparr>vs_id = Some ''vs_1'', indexed_filenames = Some {},
      chat_history = Some [], model_choice = Some ''gpt-5-mini''\<rparr>"

definition upload_run :: ui_input where
  "upload_run =
     \<lparr>uploaded_files = [inspection_pdf, inspection_pdf], selectbox = ''gpt-5-mini'',
      follow_up = None, button = False\<rparr>"

definition chat_run :: ui_input where
  "chat_run =
     \<lparr>uploaded_files = [inspection_pdf], selectbox = ''gpt-5-mini'',
      follow_up = Some ''What is the roof condition?'', button = False\<rparr>"

definition summary_run :: ui_input where
  "summary_run =
     \<lparr>uploaded_files = [inspection_pdf], selectbox = ''gpt-5-pro'',
      follow_up = None, button = True\<rparr>"

definition ready_session :: session_state where
  "ready_session =
     \<lparr>vs_id = Some ''vs_1'', indexed_filenames = Some {''inspection.pdf''},
      chat_history = Some [], model_choice = Some ''gpt-5-mini''\<rparr>"

section \<open>Sorting and deduplication\<close>

lemma strs_of_Some: "strs_of xs = Some ss \<Longrightarrow> xs = map PStr ss"
  by (induction xs arbitrary: ss rule: strs_of.induct) (auto split: option.splits)

lemma strs_of_map: "strs_of (map PStr ss) = Some ss"
  by (induction ss) auto

lemma remdups_map_PStr: "remdups (map PStr ss) = map PStr (remdups ss)"
  by (induction ss) auto

lemma sorted_wrt_py_less_map: "sorted_wrt py_less (map PStr ss) = sorted_wrt (<) ss"
  by (induction ss) auto

lemma list_all_hashable_map: "list_all hashable (map PStr ss)"
  by (induction ss) auto

lemma sorted_wrt_short: "length xs \<le> 1 \<Longrightarrow> sorted_wrt P xs"
  by (cases xs) auto

lemma sort_short: "length ss \<le> 1 \<Longrightarrow> sort ss = ss"
  by (cases ss) auto

lemma py_sorted_sound:
  assumes "py_sorted xs = Inr fs" and "distinct xs"
  shows "distinct fs \<and> sorted_wrt py_less fs \<and> set fs = set xs"
proof (cases "length xs \<le> 1")
  case True
  with assms have "fs = xs" by (simp add: py_sorted_def)
  with True assms show ?thesis by (simp add: sorted_wrt_short)
next
  case False
  with assms obtain ss where ss: "strs_of xs = Some ss" and fs: "fs = map PStr (sort ss)"
    by (auto simp: py_sorted_def split: option.splits)
  from ss have xs: "xs = map PStr ss" by (rule strs_of_Some)
  with assms have d: "distinct ss" by (simp add: distinct_map)
  have "sorted_wrt (<) (sort ss)"
    using d by (simp add: strict_sorted_iff)
  with d fs xs show ?thesis
    by (simp add: sorted_wrt_py_less_map distinct_map inj_on_def)
qed

lemma sorted_set_sound:
  "sorted_set xs = Inr fs \<Longrightarrow> distinct fs \<and> sorted_wrt py_less fs \<and> set fs = set xs"
  using py_sorted_sound [of "remdups xs" fs]
  by (auto simp: sorted_set_def py_set_def split: if_splits)

lemma sorted_set_strs:
  assumes "strs_of xs = Some ss"
  shows "sorted_set xs = Inr (map PStr (sort (remdups ss)))"
proof -
  from assms have xs: "xs = map PStr ss" by (rule strs_of_Some)
  show ?thesis
    by (simp add: xs sorted_set_def py_set_def list_all_hashable_map remdups_map_PStr
        py_sorted_def strs_of_map sort_short)
qed

section \<open>What \<^verbatim>\<open>rag_call\<close> returns\<close>

lemma rag_call_Inr:
  assumes "rag_call c s log messages instr = (Inr (answer, fs), log')"
  obtains m v response t where
    "model_choice s = Some m" "vs_id s = Some v"
    "responses_create c log (rag_request m v messages instr) = Inr response"
    "py_attr response ''output_text'' = Some t"
    "answer = py_or t (PStr placeholder)"
    "sorted_set (used_files_of response) = Inr fs"
    "log' = log @ [ResponsesCreate (rag_request m v messages instr)]"
  using assms
  by (auto simp: rag_call_def Let_def py_dot_def split: option.splits sum.splits)

lemma rag_call_reply:
  assumes "model_choice s = Some m" "vs_id s = Some v"
    "responses_create c log (rag_request m v messages instr) = Inr response"
    "py_attr response ''output_text'' = Some t"
  shows "rag_call c s log messages instr =
     (case sorted_set (used_files_of response) of
        Inl e \<Rightarrow> Inl e
      | Inr fs \<Rightarrow> Inr (py_or t (PStr placeholder), fs),
      log @ [ResponsesCreate (rag_request m v messages instr)])"
  using assms by (simp add: rag_call_def Let_def py_dot_def split: sum.splits)

lemma used_files_cited_reply:
  "used_files_of cited_reply = [PStr ''b.pdf'', PStr ''a.pdf'', PStr ''b.pdf'']"
  by (simp add: cited_reply_def used_files_of_def scan_output_def py_dot_def py_or_def
      scan_block_def py_getattr_def scan_item_def is_file_search_result_def)

text \<open>
  Claim C1. Whenever \<^verbatim>\<open>rag_call\<close> returns, its citation list has no duplicates and is
  strictly increasing in the order of Python strings; and it does return, with the
  sorted distinct names, whenever the service replied, the reply has an
  \<^verbatim>\<open>output_text\<close>, and every collected \<^verbatim>\<open>file_name\<close> is a string (none, one or many,
  repeated or not).
\<close>

theorem rag_call_citations_sorted_distinct:
  "(rag_call c s log messages instr = (Inr (answer, fs), log') \<longrightarrow>
      distinct fs \<and> sorted_wrt py_less fs) \<and>
   (model_choice s = Some m \<and> vs_id s = Some v \<and>
    responses_create c log (rag_request m v messages instr) = Inr response \<and>
    py_attr response ''output_text'' = Some t \<and>
    strs_of (used_files_of response) = Some names \<longrightarrow>
      rag_call c s log messages instr =
        (Inr (py_or t (PStr placeholder), map PStr (sort (remdups names))),
         log @ [ResponsesCreate (rag_request m v messages instr)]))"
proof (intro conjI impI)
  assume "rag_call c s log messages instr = (Inr (answer, fs), log')"
  then obtain response where "sorted_set (used_files_of response) = Inr fs"
    by (rule rag_call_Inr)
  then show "distinct fs" and "sorted_wrt py_less fs"
    by (simp_all add: sorted_set_sound)
next
  assume "model_choice s = Some m \<and> vs_id s = Some v \<and>
    responses_create c log (rag_request m v messages instr) = Inr response \<and>
    py_attr response ''output_text'' = Some t \<and>
    strs_of (used_files_of response) = Some names"
  then show "rag_call c s log messages instr =
        (Inr (py_or t (PStr placeholder), map PStr (sort (remdups names))),
         log @ [ResponsesCreate (rag_request m v messages instr)])"
    by (simp add: rag_call_reply sorted_set_strs)
qed

theorem rag_call_citations_sorted_distinct_witness:
  "rag_call (replying_client cited_reply) ready_session [] [] ''be brief'' =
     (Inr (PStr ''Roof is in fair condition.'', [PStr ''a.pdf'', PStr ''b.pdf'']),
      [ResponsesCreate (rag_request ''gpt-5-mini'' ''vs_1'' [] ''be brief'')]) \<and>
   distinct [PStr ''a.pdf'', PStr ''b.pdf''] \<and>
   sorted_wrt py_less [PStr ''a.pdf'', PStr ''b.pdf'']"
proof -
  have r: "rag_call (replying_client cited_reply) ready_session [] [] ''be brief'' =
     (Inr (PStr ''Roof is in fair condition.'', [PStr ''a.pdf'', PStr ''b.pdf'']),
      [ResponsesCreate (rag_request ''gpt-5-mini'' ''vs_1'' [] ''be brief'')])"
    using rag_call_citations_sorted_distinct
        [of "replying_client cited_reply" ready_session "[]" "[]" "''be brief''"
        "PStr ''x''" "[]" "[]" "''gpt-5-mini''" "''vs_1''" cited_reply
        "PStr ''Roof is in fair condition.''" "[''b.pdf'', ''a.pdf'', ''b.pdf'']"]
    by (simp add: used_files_cited_reply)
       (simp add: ready_session_def replying_client_def cited_reply_def py_or_def)
  with rag_call_citations_sorted_distinct
        [of "replying_client cited_reply" ready_session "[]" "[]" "''be brief''"
        "PStr ''Roof is in fair condition.''" "[PStr ''a.pdf'', PStr ''b.pdf'']"
        "[ResponsesCreate (rag_request ''gpt-5-mini'' ''vs_1'' [] ''be brief'')]"]
  show ?thesis by simp
qed

lemma truthy_py_or_placeholder: "truthy (py_or t (PStr placeholder))"
  by (simp add: py_or_def placeholder_def)

lemma truthy_not_empty: "truthy x \<Longrightarrow> x \<noteq> PNone \<and> x \<noteq> PStr []"
  by (cases x) auto

text \<open>
  Claim C6. When the reply's \<^verbatim>\<open>output_text\<close> is \<^verbatim>\<open>None\<close> or empty (any falsy value),
  the answer text \<^verbatim>\<open>rag_call\<close> returns is the placeholder; and whatever the reply, an
  answer text that \<^verbatim>\<open>rag_call\<close> returns is truthy, so neither \<^verbatim>\<open>None\<close> nor the empty
  string.
\<close>

theorem rag_call_answer_text_placeholder:
  "(model_choice s = Some m \<and> vs_id s = Some v \<and>
    responses_create c log (rag_request m v messages instr) = Inr response \<and>
    py_attr response ''output_text'' = Some t \<and> \<not> truthy t \<and>
    sorted_set (used_files_of response) = Inr fs \<longrightarrow>
      rag_call c s log messages instr =
        (Inr (PStr placeholder, fs),
         log @ [ResponsesCreate (rag_request m v messages instr)])) \<and>
   (rag_call c s log messages instr = (Inr (answer, fs'), log') \<longrightarrow>
      truthy answer \<and> answer \<noteq> PNone \<and> answer \<noteq> PStr [])"
proof (intro conjI impI)
  assume "model_choice s = Some m \<and> vs_id s = Some v \<and>
    responses_create c log (rag_request m v messages instr) = Inr response \<and>
    py_attr response ''output_text'' = Some t \<and> \<not> truthy t \<and>
    sorted_set (used_files_of response) = Inr fs"
  then show "rag_call c s log messages instr =
        (Inr (PStr placeholder, fs),
         log @ [ResponsesCreate (rag_request m v messages instr)])"
    by (simp add: rag_call_reply py_or_def)
next
  assume "rag_call c s log messages instr = (Inr (answer, fs'), log')"
  then obtain t where a: "answer = py_or t (PStr placeholder)"
    by (rule rag_call_Inr)
  then show "truthy answer" by (simp add: truthy_py_or_placeholder)
  then show "answer \<noteq> PNone" and "answer \<noteq> PStr []"
    by (simp_all add: truthy_not_empty)
qed

lemma used_files_silent_reply: "used_files_of silent_reply = []"
  by (simp add: silent_reply_def used_files_of_def scan_output_def py_dot_def py_or_def)

lemma sorted_set_Nil: "sorted_set [] = Inr []"
  by (simp add: sorted_set_def py_set_def py_sorted_def)

theorem rag_call_answer_text_placeholder_witness:
  "rag_call (replying_client silent_reply) ready_session [] [] ''be brief'' =
     (Inr (PStr placeholder, []),
      [ResponsesCreate (rag_request ''gpt-5-mini'' ''vs_1'' [] ''be brief'')]) \<and>
   truthy (PStr placeholder) \<and> PStr placeholder \<noteq> PNone \<and> PStr placeholder \<noteq> PStr []"
proof -
  have r: "rag_call (replying_client silent_reply) ready_session [] [] ''be brief'' =
     (Inr (PStr placeholder, []),
      [ResponsesCreate (rag_request ''gpt-5-mini'' ''vs_1'' [] ''be brief'')])"
    using rag_call_answer_text_placeholder [of ready_session "''gpt-5-mini''" "''vs_1''" "replying_client silent_reply"
        "[]" "[]" "''be brief''" silent_reply "PStr []" "[]"]
    by (simp add: used_files_silent_reply sorted_set_Nil)
       (simp add: ready_session_def replying_client_def silent_reply_def)
  with rag_call_answer_text_placeholder [of ready_session _ _ "replying_client silent_reply" "[]" "[]" "''be brief''" _ _ _
        "PStr placeholder" "[]"
        "[ResponsesCreate (rag_request ''gpt-5-mini'' ''vs_1'' [] ''be brief'')]"]
  show ?thesis by simp
qed

section \<open>Where the citations come from\<close>

lemma set_scan_results:
  "set (scan_results rs used) = set used \<union> {f. list_ex (entry_cites f) rs}"
  by (induction rs arbitrary: used) (auto simp: entry_cites_def split: option.splits)

lemma is_file_search_result_iff:
  "is_file_search_result c =
     (py_attr c ''type'' = Some (PStr ''tool_result'') \<and>
      py_attr c ''tool_name'' = Some (PStr ''file_search''))"
  by (auto simp: is_file_search_result_def py_getattr_def split: option.splits)

lemma set_scan_item:
  assumes "scan_item c used = (eo, used')"
  shows "set used' = set used \<union> {f. item_cites f c}"
proof (cases "is_file_search_result c")
  case False
  with assms have "used' = used" by (simp add: scan_item_def)
  moreover from False have "\<not> item_cites f c" for f
    by (auto simp: item_cites_def is_file_search_result_iff)
  ultimately show ?thesis by simp
next
  case fs: True
  show ?thesis
  proof (cases "py_attr c ''results''")
    case None
    with fs assms have "used' = used" by (simp add: scan_item_def py_dot_def)
    moreover from None have "\<not> item_cites f c" for f by (simp add: item_cites_def)
    ultimately show ?thesis by simp
  next
    case (Some res)
    show ?thesis
    proof (cases "py_iter (py_or res (PList []))")
      case (Inl e)
      with fs Some assms have "used' = used" by (simp add: scan_item_def py_dot_def)
      moreover from Some Inl have "\<not> item_cites f c" for f by (simp add: item_cites_def)
      ultimately show ?thesis by simp
    next
      case (Inr rs)
      with fs Some assms have "used' = scan_results rs used"
        by (simp add: scan_item_def py_dot_def)
      moreover from fs Some Inr have "item_cites f c = list_ex (entry_cites f) rs" for f
        by (simp add: item_cites_def is_file_search_result_iff)
      ultimately show ?thesis by (simp add: set_scan_results)
    qed
  qed
qed

lemma set_scan_content:
  "scan_content cs used = (eo, used') \<Longrightarrow>
     set used \<subseteq> set used' \<and>
     set used' \<subseteq> set used \<union> {f. list_ex (item_cites f) cs} \<and>
     (eo = None \<longrightarrow> set used' = set used \<union> {f. list_ex (item_cites f) cs})"
proof (induction cs arbitrary: used)
  case Nil
  then show ?case by simp
next
  case (Cons c cs)
  obtain eo1 used1 where i: "scan_item c used = (eo1, used1)"
    by (cases "scan_item c used")
  then have s1: "set used1 = set used \<union> {f. item_cites f c}"
    by (rule set_scan_item)
  show ?case
  proof (cases eo1)
    case None
    with Cons.prems i have "scan_content cs used1 = (eo, used')" by simp
    from Cons.IH [OF this] s1 show ?thesis by auto
  next
    case (Some e)
    with Cons.prems i have "eo = Some e" "used' = used1" by simp_all
    with s1 show ?thesis by auto
  qed
qed

lemma block_content_iter:
  "py_iter (py_or (py_getattr b ''content'' (PList [])) (PList [])) = Inr cs \<Longrightarrow>
     block_cites f b = list_ex (item_cites f) cs"
  by (auto simp: block_cites_def py_getattr_def py_or_def split: option.splits if_splits)

lemma set_scan_block:
  assumes "scan_block b used = (eo, used')"
  shows "set used \<subseteq> set used' \<and>
     set used' \<subseteq> set used \<union> {f. block_cites f b} \<and>
     (eo = None \<longrightarrow> set used' = set used \<union> {f. block_cites f b})"
proof (cases "py_iter (py_or (py_getattr b ''content'' (PList [])) (PList []))")
  case (Inl e)
  with assms have "used' = used" "eo = Some e" by (simp_all add: scan_block_def)
  then show ?thesis by simp
next
  case (Inr cs)
  with assms have "scan_content cs used = (eo, used')" by (simp add: scan_block_def)
  from set_scan_content [OF this] show ?thesis
    by (simp add: block_content_iter [OF Inr])
qed

lemma set_scan_blocks:
  "scan_blocks bs used = (eo, used') \<Longrightarrow>
     set used \<subseteq> set used' \<and>
     set used' \<subseteq> set used \<union> {f. list_ex (block_cites f) bs} \<and>
     (eo = None \<longrightarrow> set used' = set used \<union> {f. list_ex (block_cites f) bs})"
proof (induction bs arbitrary: used)
  case Nil
  then show ?case by simp
next
  case (Cons b bs)
  obtain eo1 used1 where i: "scan_block b used = (eo1, used1)"
    by (cases "scan_block b used")
  note s1 = set_scan_block [OF i]
  show ?case
  proof (cases eo1)
    case None
    with Cons.prems i have "scan_blocks bs used1 = (eo, used')" by simp
    from Cons.IH [OF this] s1 None show ?thesis by auto
  next
    case (Some e)
    with Cons.prems i have "eo = Some e" "used' = used1" by simp_all
    with s1 show ?thesis by auto
  qed
qed

lemma set_scan_output:
  "scan_output response = (eo, used) \<Longrightarrow>
     set used \<subseteq> {f. response_cites f response} \<and>
     (eo = None \<longrightarrow> set used = {f. response_cites f response})"
  using set_scan_blocks [of _ "[]" eo used]
  by (auto simp: scan_output_def response_cites_def py_dot_def
      split: sum.splits option.splits)

text \<open>
  Claim C10. Every file name \<^verbatim>\<open>rag_call\<close> collects is the \<^verbatim>\<open>file_name\<close> of a result entry
  of a content item of type \<^verbatim>\<open>tool_result\<close> and tool name \<^verbatim>\<open>file_search\<close>; when the scan
  raises nothing, the collected names are exactly those. So nothing else in the reply
  contributes to the citation list that \<^verbatim>\<open>rag_call\<close> returns.
\<close>

theorem citations_only_from_file_search_results:
  "(f \<in> set (used_files_of response) \<longrightarrow> response_cites f response) \<and>
   (fst (scan_output response) = None \<longrightarrow>
      (f \<in> set (used_files_of response)) = response_cites f response) \<and>
   (rag_call c s log messages instr = (Inr (answer, fs), log') \<and> f \<in> set fs \<longrightarrow>
      (\<exists>m v reply. model_choice s = Some m \<and> vs_id s = Some v \<and>
         responses_create c log (rag_request m v messages instr) = Inr reply \<and>
         response_cites f reply))"
proof -
  have sound: "g \<in> set (used_files_of r) \<Longrightarrow> response_cites g r" for g r
  proof -
    assume g: "g \<in> set (used_files_of r)"
    obtain eo used where so: "scan_output r = (eo, used)" by (cases "scan_output r")
    from set_scan_output [OF so] g so show ?thesis by (auto simp: used_files_of_def)
  qed
  have complete: "fst (scan_output r) = None \<Longrightarrow>
      (g \<in> set (used_files_of r)) = response_cites g r" for g r
  proof -
    assume n: "fst (scan_output r) = None"
    obtain eo used where so: "scan_output r = (eo, used)" by (cases "scan_output r")
    from set_scan_output [OF so] n so show ?thesis by (auto simp: used_files_of_def)
  qed
  have call: "\<exists>m v reply. model_choice s = Some m \<and> vs_id s = Some v \<and>
         responses_create c log (rag_request m v messages instr) = Inr reply \<and>
         response_cites f reply"
    if r: "rag_call c s log messages instr = (Inr (answer, fs), log')" and f: "f \<in> set fs"
  proof -
    from r obtain m v reply where
      m: "model_choice s = Some m" "vs_id s = Some v"
        "responses_create c log (rag_request m v messages instr) = Inr reply"
      and ss: "sorted_set (used_files_of reply) = Inr fs"
      by (rule rag_call_Inr)
    from sorted_set_sound [OF ss] f have "f \<in> set (used_files_of reply)" by simp
    then have "response_cites f reply" by (rule sound)
    with m show ?thesis by blast
  qed
  from sound complete call show ?thesis by blast
qed

theorem citations_only_from_file_search_results_witness:
  "PStr ''a.pdf'' \<in> set (used_files_of cited_reply) \<and>
   response_cites (PStr ''a.pdf'') cited_reply \<and>
   fst (scan_output cited_reply) = None \<and>
   PStr ''inspection.pdf'' \<notin> set (used_files_of cited_reply) \<and>
   \<not> response_cites (PStr ''inspection.pdf'') cited_reply"
proof -
  have n: "fst (scan_output cited_reply) = None"
    by (simp add: cited_reply_def scan_output_def py_dot_def py_or_def
      scan_block_def py_getattr_def scan_item_def is_file_search_result_def)
  from citations_only_from_file_search_results [of "PStr ''a.pdf''" cited_reply]
  have a: "response_cites (PStr ''a.pdf'') cited_reply"
    by (simp add: used_files_cited_reply)
  from n citations_only_from_file_search_results [of "PStr ''inspection.pdf''" cited_reply]
  have b: "\<not> response_cites (PStr ''inspection.pdf'') cited_reply"
    by (simp add: used_files_cited_reply)
  from n a b show ?thesis by (simp add: used_files_cited_reply)
qed

section \<open>Errors while the reply is scanned\<close>

lemma scan_output_broken_reply:
  "scan_output broken_reply = (Some AttributeError, [PStr ''a.pdf''])"
  by (simp add: broken_reply_def scan_output_def py_dot_def py_or_def
      scan_block_def py_getattr_def scan_item_def is_file_search_result_def)

text \<open>
  Claim C2, as stated, fails: on \<open>broken_reply\<close> the scan raises \<^verbatim>\<open>AttributeError\<close> at the
  second content item (it has no \<^verbatim>\<open>results\<close>), after \<^verbatim>\<open>a.pdf\<close> was collected from the
  first; the exception is dropped and \<^verbatim>\<open>rag_call\<close> returns the citation \<^verbatim>\<open>a.pdf\<close>, not an
  empty list.
\<close>

theorem rag_call_keeps_partial_citations_counterexample:
  "scan_output broken_reply = (Some AttributeError, [PStr ''a.pdf'']) \<and>
   rag_call (replying_client broken_reply) ready_session [] [] ''be brief'' =
     (Inr (PStr ''Roof is in fair condition.'', [PStr ''a.pdf'']),
      [ResponsesCreate (rag_request ''gpt-5-mini'' ''vs_1'' [] ''be brief'')])"
proof -
  have u: "used_files_of broken_reply = [PStr ''a.pdf'']"
    by (simp add: used_files_of_def scan_output_broken_reply)
  have "rag_call (replying_client broken_reply) ready_session [] [] ''be brief'' =
     (Inr (PStr ''Roof is in fair condition.'', [PStr ''a.pdf'']),
      [ResponsesCreate (rag_request ''gpt-5-mini'' ''vs_1'' [] ''be brief'')])"
    using rag_call_reply [of ready_session "''gpt-5-mini''" "''vs_1''"
        "replying_client broken_reply" "[]" "[]" "''be brief''" broken_reply
        "PStr ''Roof is in fair condition.''"]
    by (simp add: u sorted_set_def py_set_def py_sorted_def py_or_def)
       (simp add: ready_session_def replying_client_def broken_reply_def)
  then show ?thesis by (simp add: scan_output_broken_reply)
qed

text \<open>
  Claim C2, amended. When the scan of the reply raises, \<^verbatim>\<open>rag_call\<close> drops the exception
  and returns the answer text with the file names collected before the exception
  (strings, each one cited by the reply), sorted and without duplicates: the empty list
  when none had been collected.
\<close>

theorem rag_call_swallows_traversal_error:
  "model_choice s = Some m \<and> vs_id s = Some v \<and>
   responses_create c log (rag_request m v messages instr) = Inr response \<and>
   py_attr response ''output_text'' = Some t \<and>
   scan_output response = (Some e, used) \<longrightarrow>
     (used = [] \<longrightarrow>
        rag_call c s log messages instr =
          (Inr (py_or t (PStr placeholder), []),
           log @ [ResponsesCreate (rag_request m v messages instr)])) \<and>
     (strs_of used = Some names \<longrightarrow>
        rag_call c s log messages instr =
          (Inr (py_or t (PStr placeholder), map PStr (sort (remdups names))),
           log @ [ResponsesCreate (rag_request m v messages instr)])) \<and>
     list_all (\<lambda>f. response_cites f response) used"
proof (intro impI conjI)
  assume a: "model_choice s = Some m \<and> vs_id s = Some v \<and>
   responses_create c log (rag_request m v messages instr) = Inr response \<and>
   py_attr response ''output_text'' = Some t \<and>
   scan_output response = (Some e, used)"
  then have r: "rag_call c s log messages instr =
     (case sorted_set used of
        Inl e \<Rightarrow> Inl e
      | Inr fs \<Rightarrow> Inr (py_or t (PStr placeholder), fs),
      log @ [ResponsesCreate (rag_request m v messages instr)])"
    by (simp add: rag_call_reply used_files_of_def)
  show "rag_call c s log messages instr =
          (Inr (py_or t (PStr placeholder), []),
           log @ [ResponsesCreate (rag_request m v messages instr)])" if "used = []"
    using r that by (simp add: sorted_set_Nil)
  show "rag_call c s log messages instr =
          (Inr (py_or t (PStr placeholder), map PStr (sort (remdups names))),
           log @ [ResponsesCreate (rag_request m v messages instr)])"
    if "strs_of used = Some names"
    using r that by (simp add: sorted_set_strs)
  from a have "scan_output response = (Some e, used)" by simp
  from set_scan_output [OF this] show "list_all (\<lambda>f. response_cites f response) used"
    by (auto simp: list_all_iff)
qed

theorem rag_call_swallows_traversal_error_witness:
  "scan_output broken_reply = (Some AttributeError, [PStr ''a.pdf'']) \<and>
   rag_call (replying_client broken_reply) ready_session [] [] ''be brief'' =
     (Inr (PStr ''Roof is in fair condition.'', [PStr ''a.pdf'']),
      [ResponsesCreate (rag_request ''gpt-5-mini'' ''vs_1'' [] ''be brief'')]) \<and>
   response_cites (PStr ''a.pdf'') broken_reply"
  using rag_call_swallows_traversal_error [of ready_session "''gpt-5-mini''" "''vs_1''"
        "replying_client broken_reply" "[]" "[]" "''be brief''" broken_reply
        "PStr ''Roof is in fair condition.''" AttributeError "[PStr ''a.pdf'']" "[''a.pdf'']"]
  by (simp add: scan_output_broken_reply py_or_def)
     (simp add: ready_session_def replying_client_def broken_reply_def)

section \<open>\<^verbatim>\<open>ask_model\<close> and the history\<close>

lemma copy_history: "map (\<lambda>msg. \<lparr>role = role msg, content = content msg\<rparr>) h = h"
  by (induction h) auto

lemma rag_call_log:
  "model_choice s = Some m \<Longrightarrow> vs_id s = Some v \<Longrightarrow>
     snd (rag_call c s log messages instr) =
       log @ [ResponsesCreate (rag_request m v messages instr)]"
  by (simp add: rag_call_def Let_def split: sum.splits)

lemma ask_model_eq:
  "chat_history s = Some h \<Longrightarrow>
     ask_model c s log question instr update_history =
       (case rag_call c s log (h @ [\<lparr>role = ''user'', content = PStr question\<rparr>]) instr of
          (Inl e, log') \<Rightarrow> (Inl e, s, log')
        | (Inr (answer_text, used_files), log') \<Rightarrow>
            (Inr (answer_text, used_files),
             if update_history
             then s\<lparr>chat_history := Some (h @ turn_entries question answer_text)\<rparr>
             else s,
             log'))"
  by (simp add: ask_model_def copy_history turn_entries_def split: prod.splits sum.splits)

lemma ask_model_no_history:
  "chat_history s = None \<Longrightarrow>
     ask_model c s log question instr update_history = (Inl AttributeError, s, log)"
  by (simp add: ask_model_def)

lemma ask_model_log:
  "chat_history s = Some h \<Longrightarrow>
     snd (snd (ask_model c s log question instr update_history)) =
       snd (rag_call c s log (h @ [\<lparr>role = ''user'', content = PStr question\<rparr>]) instr)"
  by (simp add: ask_model_eq split: prod.splits sum.splits)

text \<open>
  Claim C3. With a history of length \<open>2 * N\<close>, \<^verbatim>\<open>ask_model\<close> submits exactly one request;
  its message list is the history, in order, followed by the new user message, so it
  has length \<open>2 * N + 1\<close> and ends with that message.
\<close>

theorem ask_model_request_messages:
  "chat_history s = Some h \<and> model_choice s = Some m \<and> vs_id s = Some v \<and>
   length h = 2 * N \<longrightarrow>
     (\<exists>req. snd (snd (ask_model c s log question instr update_history)) =
               log @ [ResponsesCreate req] \<and>
            input req = h @ [\<lparr>role = ''user'', content = PStr question\<rparr>] \<and>
            length (input req) = 2 * N + 1 \<and>
            take (2 * N) (input req) = h \<and>
            last (input req) = \<lparr>role = ''user'', content = PStr question\<rparr>)"
proof
  assume a: "chat_history s = Some h \<and> model_choice s = Some m \<and> vs_id s = Some v \<and>
   length h = 2 * N"
  let ?req = "rag_request m v (h @ [\<lparr>role = ''user'', content = PStr question\<rparr>]) instr"
  from a have "snd (snd (ask_model c s log question instr update_history)) =
               log @ [ResponsesCreate ?req]"
    by (simp add: ask_model_log rag_call_log)
  moreover have "input ?req = h @ [\<lparr>role = ''user'', content = PStr question\<rparr>]"
    by (simp add: rag_request_def)
  ultimately show "\<exists>req. snd (snd (ask_model c s log question instr update_history)) =
               log @ [ResponsesCreate req] \<and>
            input req = h @ [\<lparr>role = ''user'', content = PStr question\<rparr>] \<and>
            length (input req) = 2 * N + 1 \<and>
            take (2 * N) (input req) = h \<and>
            last (input req) = \<lparr>role = ''user'', content = PStr question\<rparr>"
    using a by (intro exI [of _ ?req]) simp
qed

theorem ask_model_request_messages_witness:
  "(\<exists>req. snd (snd (ask_model (replying_client cited_reply)
       (ready_session\<lparr>chat_history :=
           Some (turn_entries ''How old is the roof?'' (PStr ''Ten years.''))\<rparr>)
       [] ''Any leaks?'' ''be brief'' True)) = [ResponsesCreate req] \<and>
     input req =
       [\<lparr>role = ''user'', content = PStr ''How old is the roof?''\<rparr>,
        \<lparr>role = ''assistant'', content = PStr ''Ten years.''\<rparr>,
        \<lparr>role = ''user'', content = PStr ''Any leaks?''\<rparr>] \<and>
     length (input req) = 3 \<and>
     take 2 (input req) =
       [\<lparr>role = ''user'', content = PStr ''How old is the roof?''\<rparr>,
        \<lparr>role = ''assistant'', content = PStr ''Ten years.''\<rparr>] \<and>
     last (input req) = \<lparr>role = ''user'', content = PStr ''Any leaks?''\<rparr>)"
  using ask_model_request_messages [of "ready_session\<lparr>chat_history :=
           Some (turn_entries ''How old is the roof?'' (PStr ''Ten years.''))\<rparr>"
      "turn_entries ''How old is the roof?'' (PStr ''Ten years.'')"
      "''gpt-5-mini''" "''vs_1''" 1 "replying_client cited_reply" "[]"
      "''Any leaks?''" "''be brief''" True]
  by (simp add: ready_session_def turn_entries_def)

section \<open>What each part of the script leaves unchanged\<close>

lemma collapse3: "x = (fst x, fst (snd x), snd (snd x))"
  by simp

lemma init_vs_id_frame:
  "init_vs_id c s log = (eo, s1, log1) \<Longrightarrow>
     indexed_filenames s1 = indexed_filenames s \<and> chat_history s1 = chat_history s \<and>
     model_choice s1 = model_choice s"
  by (auto simp: init_vs_id_def split: option.splits sum.splits)

lemma init_vs_id_set:
  "init_vs_id c s log = (None, s1, log1) \<Longrightarrow> vs_id s1 \<noteq> None"
  by (auto simp: init_vs_id_def split: option.splits sum.splits)

lemma history_of_init_defaults: "history_of (init_defaults s) = history_of s"
  by (simp add: history_of_def init_defaults_def split: option.splits)

lemma init_defaults_set:
  "chat_history (init_defaults s) = Some (history_of s) \<and>
   indexed_filenames (init_defaults s) \<noteq> None \<and>
   model_choice (init_defaults s) \<noteq> None \<and>
   vs_id (init_defaults s) = vs_id s"
  by (simp add: history_of_def init_defaults_def split: option.splits)

lemma init_session_history:
  assumes "init_session c s log = (eo, s1, log1)"
  shows "history_of s1 = history_of s"
proof -
  obtain eo0 s0 log0 where i: "init_vs_id c s log = (eo0, s0, log0)"
    by (cases "init_vs_id c s log")
  from init_vs_id_frame [OF i] have h: "history_of s0 = history_of s"
    by (simp add: history_of_def)
  from assms i have "s1 = s0 \<or> s1 = init_defaults s0"
    by (auto simp: init_session_def split: option.splits)
  with h show ?thesis by (auto simp: history_of_init_defaults)
qed

lemma init_session_ready:
  assumes "init_session c s log = (None, s1, log1)"
  shows "chat_history s1 = Some (history_of s) \<and> indexed_filenames s1 \<noteq> None \<and>
     model_choice s1 \<noteq> None \<and> vs_id s1 \<noteq> None"
proof -
  obtain eo0 s0 log0 where i: "init_vs_id c s log = (eo0, s0, log0)"
    by (cases "init_vs_id c s log")
  with assms have e: "eo0 = None" and s1: "s1 = init_defaults s0"
    by (auto simp: init_session_def split: option.splits)
  from init_vs_id_frame [OF i] have h: "history_of s0 = history_of s"
    by (simp add: history_of_def)
  from i e have "vs_id s0 \<noteq> None" by (simp add: init_vs_id_set)
  with s1 h init_defaults_set [of s0] show ?thesis by simp
qed

lemma index_file_frame:
  "index_file c f (s, n, log) = (eo, s', n', log') \<Longrightarrow>
     chat_history s' = chat_history s \<and> vs_id s' = vs_id s \<and>
     model_choice s' = model_choice s"
  by (auto simp: index_file_def Let_def split: option.splits sum.splits if_splits)

lemma index_loop_frame:
  "index_loop c fs (s, n, log) = (eo, s', n', log') \<Longrightarrow>
     chat_history s' = chat_history s \<and> vs_id s' = vs_id s \<and>
     model_choice s' = model_choice s"
proof (induction fs arbitrary: s n log)
  case Nil
  then show ?case by simp
next
  case (Cons f fs)
  obtain eo1 s1 n1 log1 where i: "index_file c f (s, n, log) = (eo1, s1, n1, log1)"
    by (cases "index_file c f (s, n, log)")
  note fr = index_file_frame [OF i]
  show ?case
  proof (cases eo1)
    case None
    with Cons.prems i have "index_loop c fs (s1, n1, log1) = (eo, s', n', log')" by simp
    from Cons.IH [OF this] fr show ?thesis by simp
  next
    case (Some e)
    with Cons.prems i have "s' = s1" by simp
    with fr show ?thesis by simp
  qed
qed

lemma upload_section_frame:
  "upload_section c files s log = (eo, s', n', log') \<Longrightarrow>
     chat_history s' = chat_history s \<and> vs_id s' = vs_id s \<and>
     model_choice s' = model_choice s"
  using index_loop_frame [of c files s 0 log eo s' n' log']
  by (auto simp: upload_section_def split: if_splits)

lemma model_section_frame:
  "model_section sel s = Inr s' \<Longrightarrow>
     chat_history s' = chat_history s \<and> vs_id s' = vs_id s \<and>
     indexed_filenames s' = indexed_filenames s"
  by (auto simp: model_section_def split: option.splits)

lemma ask_model_history:
  assumes "ask_model c s log question instr update_history = (r, s', log')"
  shows "(case r of
            Inl e \<Rightarrow> s' = s
          | Inr (answer_text, used_files) \<Rightarrow>
              if update_history
              then (\<exists>h. chat_history s = Some h \<and>
                     s' = s\<lparr>chat_history := Some (h @ turn_entries question answer_text)\<rparr>)
              else s' = s)"
proof (cases "chat_history s")
  case None
  with assms show ?thesis by (auto simp: ask_model_no_history)
next
  case (Some h)
  with assms show ?thesis
    by (auto simp: ask_model_eq split: prod.splits sum.splits if_splits)
qed

lemma investor_summary_state: "investor_summary c s log = (r, s', log') \<Longrightarrow> s' = s"
  by (auto simp: investor_summary_def Let_def split: option.splits prod.splits)

lemma summary_section_state:
  "summary_section c pressed s log = (out, s', log') \<Longrightarrow> s' = s \<and> out \<noteq> Rerun"
  by (auto simp: summary_section_def split: if_splits prod.splits sum.splits
      dest: investor_summary_state)

lemma chat_section_history:
  assumes "chat_section c fu s log = Some (r, s', log')"
  shows "(case r of
            Inl e \<Rightarrow> s' = s
          | Inr (answer_text, used_files) \<Rightarrow>
              (\<exists>h q. fu = Some q \<and> chat_history s = Some h \<and>
                 s' = s\<lparr>chat_history := Some (h @ turn_entries q answer_text)\<rparr>))"
proof -
  from assms obtain q where q: "fu = Some q"
    and a: "ask_model c s log q chat_instructions True = (r, s', log')"
    by (auto simp: chat_section_def split: option.splits if_splits)
  from ask_model_history [OF a] q show ?thesis
    by (auto split: sum.splits)
qed

lemma chat_and_summary_history:
  assumes "chat_and_summary c ui s log = (out, s', log')"
  shows "if out = Rerun
         then (\<exists>h q a. follow_up ui = Some q \<and> chat_history s = Some h \<and>
                 s' = s\<lparr>chat_history := Some (h @ turn_entries q a)\<rparr>)
         else s' = s"
proof (cases "chat_section c (follow_up ui) s log")
  case None
  with assms show ?thesis
    by (auto simp: chat_and_summary_def split: option.splits if_splits
        dest: summary_section_state)
next
  case (Some t)
  obtain r s1 log1 where t: "t = (r, s1, log1)" by (cases t)
  from Some t have cs: "chat_section c (follow_up ui) s log = Some (r, s1, log1)" by simp
  note h = chat_section_history [OF cs]
  show ?thesis
  proof (cases r)
    case (Inl e)
    with assms cs h show ?thesis
      by (auto simp: chat_and_summary_def split: option.splits if_splits)
  next
    case (Inr p)
    with assms cs h show ?thesis
      by (auto simp: chat_and_summary_def split: option.splits if_splits prod.splits)
  qed
qed

lemma history_of_Some: "chat_history s = Some h \<Longrightarrow> history_of s = h"
  by (simp add: history_of_def)

lemma script_run_history:
  assumes "script_run c ui s log = (out, s', log')"
  shows "if out = Rerun
         then (\<exists>q a. follow_up ui = Some q \<and>
                 chat_history s' = Some (history_of s @ turn_entries q a))
         else history_of s' = history_of s"
proof -
  obtain eo1 s1 log1 where i: "init_session c s log = (eo1, s1, log1)"
    by (cases "init_session c s log")
  note h1 = init_session_history [OF i]
  show ?thesis
  proof (cases eo1)
    case (Some e)
    with assms i have "out = Raised e" "s' = s1" by (simp_all add: script_run_def)
    with h1 show ?thesis by simp
  next
    case None
    obtain eo2 s2 n2 log2 where u: "upload_section c (uploaded_files ui) s1 log1 = (eo2, s2, n2, log2)"
      by (cases "upload_section c (uploaded_files ui) s1 log1")
    from upload_section_frame [OF u] h1 have h2: "history_of s2 = history_of s"
      by (simp add: history_of_def)
    show ?thesis
    proof (cases eo2)
      case (Some e)
      with assms i None u have "out = Raised e" "s' = s2" by (simp_all add: script_run_def)
      with h2 show ?thesis by simp
    next
      case n2: None
      show ?thesis
      proof (cases "model_section (selectbox ui) s2")
        case (Inl e)
        with assms i None u n2 have "out = Raised e" "s' = s2" by (simp_all add: script_run_def)
        with h2 show ?thesis by simp
      next
        case (Inr s3)
        from model_section_frame [OF Inr] h2 have h3: "history_of s3 = history_of s"
          by (simp add: history_of_def)
        from assms i None u n2 Inr have "chat_and_summary c ui s3 log2 = (out, s', log')"
          by (simp add: script_run_def)
        from chat_and_summary_history [OF this] h3 show ?thesis
          by (auto simp: history_of_Some split: if_splits)
      qed
    qed
  qed
qed

lemma script_run_history_prefix:
  assumes "script_run c ui s log = (out, s', log')"
  shows "\<exists>new. history_of s' = history_of s @ new \<and>
           map role new = (if out = Rerun then [''user'', ''assistant''] else [])"
proof (cases "out = Rerun")
  case True
  with script_run_history [OF assms] obtain q a where
    "chat_history s' = Some (history_of s @ turn_entries q a)" by auto
  then have "history_of s' = history_of s @ turn_entries q a" by (rule history_of_Some)
  with True show ?thesis by (auto simp: turn_entries_def)
next
  case False
  with script_run_history [OF assms] show ?thesis by simp
qed

lemma session_runs_history:
  "session_runs c uis (s, log) = (outs, s', log') \<Longrightarrow>
     \<exists>new. history_of s' = history_of s @ new \<and>
       map role new = concat (replicate (count_list outs Rerun) [''user'', ''assistant''])"
proof (induction uis arbitrary: s log outs)
  case Nil
  then show ?case by simp
next
  case (Cons ui uis)
  obtain out s1 log1 where r: "script_run c ui s log = (out, s1, log1)"
    by (cases "script_run c ui s log")
  obtain outs1 s2 log2 where rs0: "session_runs c uis (s1, log1) = (outs1, s2, log2)"
    by (cases "session_runs c uis (s1, log1)")
  from Cons.prems r rs0 have o: "outs = out # outs1" and s': "s' = s2" and l': "log' = log2"
    by simp_all
  from rs0 s' l' have rs: "session_runs c uis (s1, log1) = (outs1, s', log')" by simp
  from script_run_history_prefix [OF r] obtain new1 where
    n1: "history_of s1 = history_of s @ new1"
      "map role new1 = (if out = Rerun then [''user'', ''assistant''] else [])" by blast
  from Cons.IH [OF rs] s' obtain new2 where
    n2: "history_of s2 = history_of s1 @ new2"
      "map role new2 = concat (replicate (count_list outs1 Rerun) [''user'', ''assistant''])"
    by auto
  from n1 n2 o s' show ?case
    by (intro exI [of _ "new1 @ new2"]) auto
qed

lemma length_concat_replicate2: "length (concat (replicate n [a, b])) = 2 * n"
  by (induction n) auto

text \<open>
  Claim C4. A chat turn that succeeds appends the user entry and then the assistant
  entry to the history. Over any sequence of runs of the script the earlier history
  stays a prefix of the later one, and what is added is one user entry followed by one
  assistant entry per chat turn that succeeded (a run ending with \<^verbatim>\<open>st.rerun()\<close>); from
  a new session the history has length twice the number of those turns.
\<close>

theorem chat_history_append_only:
  "(ask_model c s log question instr True = (Inr (answer_text, used_files), s1, log1) \<longrightarrow>
      (\<exists>h. chat_history s = Some h \<and>
         chat_history s1 =
           Some (h @ [\<lparr>role = ''user'', content = PStr question\<rparr>,
                      \<lparr>role = ''assistant'', content = answer_text\<rparr>]))) \<and>
   (session_runs c uis (s, log) = (outs, s', log') \<longrightarrow>
      (\<exists>new. history_of s' = history_of s @ new \<and>
         map role new = concat (replicate (count_list outs Rerun) [''user'', ''assistant'']))) \<and>
   (session_runs c uis (new_session, []) = (outs, s', log') \<longrightarrow>
      length (history_of s') = 2 * count_list outs Rerun)"
proof (intro conjI impI)
  assume "ask_model c s log question instr True = (Inr (answer_text, used_files), s1, log1)"
  from ask_model_history [OF this]
  show "\<exists>h. chat_history s = Some h \<and>
         chat_history s1 =
           Some (h @ [\<lparr>role = ''user'', content = PStr question\<rparr>,
                      \<lparr>role = ''assistant'', content = answer_text\<rparr>])"
    by (auto simp: turn_entries_def)
next
  assume "session_runs c uis (s, log) = (outs, s', log')"
  then show "\<exists>new. history_of s' = history_of s @ new \<and>
         map role new = concat (replicate (count_list outs Rerun) [''user'', ''assistant''])"
    by (rule session_runs_history)
next
  assume "session_runs c uis (new_session, []) = (outs, s', log')"
  from session_runs_history [OF this] obtain new where
    n: "history_of s' = history_of new_session @ new"
      "map role new = concat (replicate (count_list outs Rerun) [''user'', ''assistant''])"
    by blast
  have "length new = length (map role new)" by simp
  also have "\<dots> = 2 * count_list outs Rerun"
    by (simp only: n length_concat_replicate2)
  finally show "length (history_of s') = 2 * count_list outs Rerun"
    using n by (simp add: history_of_def new_session_def)
qed

theorem chat_history_append_only_witness:
  "chat_history (fst (snd (ask_model (replying_client cited_reply) ready_session []
       ''Any leaks?'' chat_instructions True))) =
     Some [\<lparr>role = ''user'', content = PStr ''Any leaks?''\<rparr>,
           \<lparr>role = ''assistant'', content = PStr ''Roof is in fair condition.''\<rparr>] \<and>
   count_list (fst (session_runs (replying_client cited_reply)
       [upload_run, chat_run, summary_run, chat_run] (new_session, []))) Rerun = 2 \<and>
   length (history_of (fst (snd (session_runs (replying_client cited_reply)
       [upload_run, chat_run, summary_run, chat_run] (new_session, []))))) = 4 \<and>
   (\<exists>new. history_of (fst (snd (session_runs (replying_client cited_reply)
       [chat_run, chat_run] (ready_session, [])))) = history_of ready_session @ new \<and>
      map role new = [''user'', ''assistant'', ''user'', ''assistant''])"
proof -
  let ?c = "replying_client cited_reply"
  let ?A = "ask_model ?c ready_session [] ''Any leaks?'' chat_instructions True"
  let ?R = "session_runs ?c [upload_run, chat_run, summary_run, chat_run] (new_session, [])"
  let ?Q = "session_runs ?c [chat_run, chat_run] (ready_session, [])"
  have "fst ?A = Inr (PStr ''Roof is in fair condition.'', [PStr ''a.pdf'', PStr ''b.pdf''])"
    by code_simp
  then have "?A = (Inr (PStr ''Roof is in fair condition.'', [PStr ''a.pdf'', PStr ''b.pdf'']),
      fst (snd ?A), snd (snd ?A))"
    using collapse3 [of ?A] by simp
  with chat_history_append_only [of ?c ready_session "[]" "''Any leaks?''" chat_instructions
      "PStr ''Roof is in fair condition.''" "[PStr ''a.pdf'', PStr ''b.pdf'']"
      "fst (snd ?A)" "snd (snd ?A)"]
  have a: "chat_history (fst (snd ?A)) =
     Some [\<lparr>role = ''user'', content = PStr ''Any leaks?''\<rparr>,
           \<lparr>role = ''assistant'', content = PStr ''Roof is in fair condition.''\<rparr>]"
    by (auto simp: ready_session_def)
  have n: "count_list (fst ?R) Rerun = 2" by code_simp
  have "length (history_of (fst (snd ?R))) = 2 * count_list (fst ?R) Rerun"
    using chat_history_append_only [of ?c _ _ _ _ _ _ _ _ "[upload_run, chat_run, summary_run, chat_run]"
        "fst ?R" "fst (snd ?R)" "snd (snd ?R)"] by simp
  with n have l: "length (history_of (fst (snd ?R))) = 4" by simp
  have m: "count_list (fst ?Q) Rerun = 2" by code_simp
  have q: "\<exists>new. history_of (fst (snd ?Q)) = history_of ready_session @ new \<and>
      map role new = concat (replicate (count_list (fst ?Q) Rerun) [''user'', ''assistant''])"
    using chat_history_append_only [of ?c ready_session "[]" _ _ _ _ _ _ "[chat_run, chat_run]"
        "fst ?Q" "fst (snd ?Q)" "snd (snd ?Q)"] by simp
  have "concat (replicate 2 [''user'', ''assistant'']) = [''user'', ''assistant'', ''user'', ''assistant'']"
    by (simp add: numeral_2_eq_2)
  with q m have q': "\<exists>new. history_of (fst (snd ?Q)) = history_of ready_session @ new \<and>
      map role new = [''user'', ''assistant'', ''user'', ''assistant'']" by simp
  from a n l q' show ?thesis by simp
qed

section \<open>The loop over the uploaded files\<close>

lemma index_file_known:
  "indexed_filenames s = Some names \<Longrightarrow> name f \<in> names \<Longrightarrow>
     index_file c f (s, n, log) = (None, s, n, log)"
  by (simp add: index_file_def)

lemma index_file_upload_fails:
  "indexed_filenames s = Some names \<Longrightarrow> name f \<notin> names \<Longrightarrow>
   files_create c log (name f) (bytes f) = Inl e \<Longrightarrow>
     index_file c f (s, n, log) = (Some e, s, n, log @ [FilesCreate (name f) (bytes f)])"
  by (simp add: index_file_def)

lemma index_file_attach_fails:
  "indexed_filenames s = Some names \<Longrightarrow> name f \<notin> names \<Longrightarrow> vs_id s = Some v \<Longrightarrow>
   files_create c log (name f) (bytes f) = Inr file_id \<Longrightarrow>
   vector_stores_files_create c (log @ [FilesCreate (name f) (bytes f)]) v file_id = Inl e \<Longrightarrow>
     index_file c f (s, n, log) =
       (Some e, s, n,
        log @ [FilesCreate (name f) (bytes f), VectorStoresFilesCreate v file_id])"
  by (simp add: index_file_def)

lemma index_file_new:
  "indexed_filenames s = Some names \<Longrightarrow> name f \<notin> names \<Longrightarrow> vs_id s = Some v \<Longrightarrow>
   files_create c log (name f) (bytes f) = Inr file_id \<Longrightarrow>
   vector_stores_files_create c (log @ [FilesCreate (name f) (bytes f)]) v file_id = Inr u \<Longrightarrow>
     index_file c f (s, n, log) =
       (None, s\<lparr>indexed_filenames := Some (insert (name f) names)\<rparr>, Suc n,
        log @ [FilesCreate (name f) (bytes f), VectorStoresFilesCreate v file_id])"
  by (simp add: index_file_def)

lemma index_file_raised:
  "index_file c f (s, n, log) = (Some e, s', n', log') \<Longrightarrow> s' = s \<and> n' = n"
  by (auto simp: index_file_def Let_def split: option.splits sum.splits if_splits)

lemma index_loop_raised:
  "index_loop c fs (s, n, log) = (Some e, s', n', log') \<Longrightarrow>
     \<exists>pre f post logp. fs = pre @ f # post \<and>
       index_loop c pre (s, n, log) = (None, s', n', logp) \<and>
       index_file c f (s', n', logp) = (Some e, s', n', log')"
proof (induction fs arbitrary: s n log)
  case Nil
  then show ?case by simp
next
  case (Cons f fs)
  obtain eo1 s1 n1 log1 where i: "index_file c f (s, n, log) = (eo1, s1, n1, log1)"
    by (cases "index_file c f (s, n, log)")
  show ?case
  proof (cases eo1)
    case None
    with Cons.prems i have "index_loop c fs (s1, n1, log1) = (Some e, s', n', log')" by simp
    from Cons.IH [OF this] obtain pre g post logp where
      p: "fs = pre @ g # post" "index_loop c pre (s1, n1, log1) = (None, s', n', logp)"
        "index_file c g (s', n', logp) = (Some e, s', n', log')" by blast
    from p i None have "f # fs = (f # pre) @ g # post \<and>
        index_loop c (f # pre) (s, n, log) = (None, s', n', logp) \<and>
        index_file c g (s', n', logp) = (Some e, s', n', log')" by simp
    then show ?thesis by blast
  next
    case (Some e1)
    with Cons.prems i have eq: "e1 = e" "s1 = s'" "n1 = n'" "log1 = log'" by simp_all
    from i Some eq have i': "index_file c f (s, n, log) = (Some e, s', n', log')" by simp
    from index_file_raised [OF i'] have "s' = s" "n' = n" by simp_all
    with i' have "f # fs = [] @ f # fs \<and>
        index_loop c [] (s, n, log) = (None, s', n', log) \<and>
        index_file c f (s', n', log) = (Some e, s', n', log')" by simp
    then show ?thesis by blast
  qed
qed

text \<open>
  Claim C8. When the step for a file raises, the session state and the count are what
  they were before that file: this holds when the upload raises and when the attachment
  raises. For the loop, the state and count at the exception are those reached after
  the files before the failing one.
\<close>

theorem failed_upload_leaves_state:
  "(index_file c f (s, n, log) = (Some e, s', n', log') \<longrightarrow> s' = s \<and> n' = n) \<and>
   (indexed_filenames s = Some names \<and> name f \<notin> names \<and>
    files_create c log (name f) (bytes f) = Inl e \<longrightarrow>
      index_file c f (s, n, log) = (Some e, s, n, log @ [FilesCreate (name f) (bytes f)])) \<and>
   (indexed_filenames s = Some names \<and> name f \<notin> names \<and> vs_id s = Some v \<and>
    files_create c log (name f) (bytes f) = Inr file_id \<and>
    vector_stores_files_create c (log @ [FilesCreate (name f) (bytes f)]) v file_id = Inl e \<longrightarrow>
      index_file c f (s, n, log) =
        (Some e, s, n,
         log @ [FilesCreate (name f) (bytes f), VectorStoresFilesCreate v file_id])) \<and>
   (index_loop c fs (s, n, log) = (Some e, s', n', log') \<longrightarrow>
      (\<exists>pre g post logp. fs = pre @ g # post \<and>
         index_loop c pre (s, n, log) = (None, s', n', logp) \<and>
         index_file c g (s', n', logp) = (Some e, s', n', log')))"
  using index_file_raised [of c f s n log e s' n' log']
    index_file_upload_fails [of s names f c log e n]
    index_file_attach_fails [of s names f v c log file_id e n]
    index_loop_raised [of c fs s n log e s' n' log']
  by blast

theorem failed_upload_leaves_state_witness:
  "index_file refusing_client inspection_pdf (fresh_session, 0, []) =
     (Some (APIError ''quota''), fresh_session, 0,
      [FilesCreate ''inspection.pdf'' ''%PDF-1.7'']) \<and>
   index_file attach_refusing_client inspection_pdf (fresh_session, 0, []) =
     (Some (APIError ''quota''), fresh_session, 0,
      [FilesCreate ''inspection.pdf'' ''%PDF-1.7'',
       VectorStoresFilesCreate ''vs_1'' ''file-inspection.pdf'']) \<and>
   fst (snd (index_loop refusing_client [inspection_pdf] (fresh_session, 0, []))) = fresh_session \<and>
   (\<exists>pre g post logp. [inspection_pdf] = pre @ g # post \<and>
      index_loop refusing_client pre (fresh_session, 0, []) = (None, fresh_session, 0, logp) \<and>
      index_file refusing_client g (fresh_session, 0, logp) =
        (Some (APIError ''quota''), fresh_session, 0,
         [FilesCreate ''inspection.pdf'' ''%PDF-1.7'']))"
proof -
  let ?L = "index_loop refusing_client [inspection_pdf] (fresh_session, 0, [])"
  have a: "index_file refusing_client inspection_pdf (fresh_session, 0, []) =
     (Some (APIError ''quota''), fresh_session, 0,
      [FilesCreate ''inspection.pdf'' ''%PDF-1.7''])"
    using failed_upload_leaves_state [of refusing_client inspection_pdf fresh_session 0 "[]" "APIError ''quota''" _ _ _ "{}"]
    by (simp add: fresh_session_def inspection_pdf_def refusing_client_def)
  have b: "index_file attach_refusing_client inspection_pdf (fresh_session, 0, []) =
     (Some (APIError ''quota''), fresh_session, 0,
      [FilesCreate ''inspection.pdf'' ''%PDF-1.7'',
       VectorStoresFilesCreate ''vs_1'' ''file-inspection.pdf''])"
    using failed_upload_leaves_state [of attach_refusing_client inspection_pdf fresh_session 0 "[]" "APIError ''quota''"
        _ _ _ "{}" "''vs_1''" "''file-inspection.pdf''"]
    by (simp add: fresh_session_def inspection_pdf_def attach_refusing_client_def)
  from a have l: "?L = (Some (APIError ''quota''), fresh_session, 0,
      [FilesCreate ''inspection.pdf'' ''%PDF-1.7''])" by simp
  from l have c: "fst (snd ?L) = fresh_session" by simp
  from l failed_upload_leaves_state [of refusing_client _ fresh_session 0 "[]" "APIError ''quota''" fresh_session 0
      "[FilesCreate ''inspection.pdf'' ''%PDF-1.7'']" _ _ _ "[inspection_pdf]"]
  have d: "\<exists>pre g post logp. [inspection_pdf] = pre @ g # post \<and>
      index_loop refusing_client pre (fresh_session, 0, []) = (None, fresh_session, 0, logp) \<and>
      index_file refusing_client g (fresh_session, 0, logp) =
        (Some (APIError ''quota''), fresh_session, 0,
         [FilesCreate ''inspection.pdf'' ''%PDF-1.7''])"
    by simp
  from a b c d show ?thesis by simp
qed

lemma card_new_names:
  assumes "x \<notin> names" "finite S"
  shows "card (insert x S - names) = Suc (card (S - insert x names))"
proof -
  from assms have "insert x S - names = insert x (S - insert x names)" by auto
  moreover have "x \<notin> S - insert x names" by simp
  moreover from assms have "finite (S - insert x names)" by simp
  ultimately show ?thesis by simp
qed

lemma index_loop_all:
  assumes up: "\<forall>l a b. \<not> isl (files_create c l a b)"
    and at: "\<forall>l a b. \<not> isl (vector_stores_files_create c l a b)"
  shows "indexed_filenames s = Some names \<Longrightarrow> vs_id s = Some v \<Longrightarrow>
     \<exists>log'. index_loop c fs (s, n, log) =
       (None, s\<lparr>indexed_filenames := Some (names \<union> set (map name fs))\<rparr>,
        n + card (set (map name fs) - names), log')"
proof (induction fs arbitrary: s n log names)
  case Nil
  then show ?case by simp
next
  case (Cons f fs)
  show ?case
  proof (cases "name f \<in> names")
    case True
    with Cons.prems have i: "index_file c f (s, n, log) = (None, s, n, log)"
      by (simp add: index_file_known)
    from True have eq: "names \<union> set (map name (f # fs)) = names \<union> set (map name fs)"
      "set (map name (f # fs)) - names = set (map name fs) - names" by auto
    from Cons.IH [OF Cons.prems, of n log] i show ?thesis
      by (simp only: eq) simp
  next
    case False
    from up have "\<not> isl (files_create c log (name f) (bytes f))" by blast
    then obtain file_id where fc: "files_create c log (name f) (bytes f) = Inr file_id"
      by (cases "files_create c log (name f) (bytes f)") auto
    from at have "\<not> isl (vector_stores_files_create c
        (log @ [FilesCreate (name f) (bytes f)]) v file_id)" by blast
    then obtain u where
      vc: "vector_stores_files_create c (log @ [FilesCreate (name f) (bytes f)]) v file_id = Inr u"
      by (cases "vector_stores_files_create c (log @ [FilesCreate (name f) (bytes f)]) v file_id")
         auto
    let ?s1 = "s\<lparr>indexed_filenames := Some (insert (name f) names)\<rparr>"
    let ?log1 = "log @ [FilesCreate (name f) (bytes f), VectorStoresFilesCreate v file_id]"
    from False Cons.prems fc vc
    have i: "index_file c f (s, n, log) = (None, ?s1, Suc n, ?log1)"
      by (simp add: index_file_new)
    have p1: "indexed_filenames ?s1 = Some (insert (name f) names)" by simp
    from Cons.prems have p2: "vs_id ?s1 = Some v" by simp
    from Cons.IH [OF p1 p2, of "Suc n" ?log1] obtain log' where
      l: "index_loop c fs (?s1, Suc n, ?log1) =
         (None, ?s1\<lparr>indexed_filenames := Some (insert (name f) names \<union> set (map name fs))\<rparr>,
          Suc n + card (set (map name fs) - insert (name f) names), log')" by blast
    have c: "card (set (map name (f # fs)) - names) =
        Suc (card (set (map name fs) - insert (name f) names))"
      using False by (simp add: card_new_names)
    have u: "insert (name f) names \<union> set (map name fs) = names \<union> set (map name (f # fs))"
      by auto
    from i l show ?thesis
      by (simp only: c u) simp
  qed
qed

text \<open>
  Claim C5. A file whose name is already indexed is skipped: no call, no change, no
  count. When the service accepts every upload and attachment, the loop over any list
  of files leaves \<^verbatim>\<open>indexed_filenames\<close> equal to the names it had together with the names
  given, whatever their order and repetition, and counts each new name once.
\<close>

theorem register_indexed_idempotent:
  "(indexed_filenames s = Some names \<and> name f \<in> names \<longrightarrow>
      index_file c f (s, n, log) = (None, s, n, log)) \<and>
   ((\<forall>l a b. \<not> isl (files_create c l a b)) \<and>
    (\<forall>l a b. \<not> isl (vector_stores_files_create c l a b)) \<and>
    indexed_filenames s = Some names \<and> vs_id s = Some v \<longrightarrow>
      (\<exists>log'. index_loop c fs (s, n, log) =
         (None, s\<lparr>indexed_filenames := Some (names \<union> set (map name fs))\<rparr>,
          n + card (set (map name fs) - names), log')))"
  using index_file_known [of s names f c n log] index_loop_all [of c s names v fs n log]
  by blast

theorem register_indexed_idempotent_witness:
  "index_file (replying_client PNone) inspection_pdf (ready_session, 5, []) =
     (None, ready_session, 5, []) \<and>
   (\<exists>log'. index_loop (replying_client PNone) [inspection_pdf, inspection_pdf]
        (fresh_session, 0, []) =
      (None, fresh_session\<lparr>indexed_filenames := Some {''inspection.pdf''}\<rparr>, 1, log'))"
proof -
  have a: "index_file (replying_client PNone) inspection_pdf (ready_session, 5, []) =
     (None, ready_session, 5, [])"
    using register_indexed_idempotent [of ready_session "{''inspection.pdf''}" inspection_pdf "replying_client PNone" 5 "[]"]
    by (simp add: ready_session_def inspection_pdf_def)
  have b: "\<exists>log'. index_loop (replying_client PNone) [inspection_pdf, inspection_pdf]
        (fresh_session, 0, []) =
      (None, fresh_session\<lparr>indexed_filenames := Some {''inspection.pdf''}\<rparr>, 1, log')"
    using register_indexed_idempotent [of fresh_session "{}" _ "replying_client PNone" 0 "[]" "''vs_1''"
        "[inspection_pdf, inspection_pdf]"]
    by (simp add: fresh_session_def inspection_pdf_def replying_client_def)
  from a b show ?thesis by simp
qed

section \<open>The vector store of a session\<close>

lemma only_store_Nil: "only_store v []"
  by (simp add: only_store_def)

lemma only_store_append: "only_store v xs \<Longrightarrow> only_store v ys \<Longrightarrow> only_store v (xs @ ys)"
  by (simp add: only_store_def)

lemma only_store_request: "only_store v [ResponsesCreate (rag_request m v messages instr)]"
  by (simp add: only_store_def rag_request_def)

lemma rag_call_store:
  assumes "vs_id s = Some v" "rag_call c s log messages instr = (r, log')"
  shows "\<exists>new. log' = log @ new \<and> only_store v new"
proof (cases "model_choice s")
  case None
  with assms have "log' = log @ []" by (simp add: rag_call_def)
  then show ?thesis using only_store_Nil by blast
next
  case (Some m)
  from rag_call_log [OF Some assms(1), of c log messages instr] assms(2)
  have "log' = log @ [ResponsesCreate (rag_request m v messages instr)]" by simp
  then show ?thesis using only_store_request by blast
qed

lemma ask_model_store:
  assumes "vs_id s = Some v" "ask_model c s log question instr update_history = (r, s', log')"
  shows "vs_id s' = Some v \<and> (\<exists>new. log' = log @ new \<and> only_store v new)"
proof (cases "chat_history s")
  case None
  with assms have "s' = s" "log' = log @ []" by (simp_all add: ask_model_no_history)
  with assms show ?thesis using only_store_Nil by blast
next
  case (Some h)
  obtain r0 log0 where
    rc: "rag_call c s log (h @ [\<lparr>role = ''user'', content = PStr question\<rparr>]) instr = (r0, log0)"
    by (cases "rag_call c s log (h @ [\<lparr>role = ''user'', content = PStr question\<rparr>]) instr")
  from ask_model_log [OF Some, of c log question instr update_history] assms(2) rc
  have l: "log' = log0" by simp
  from ask_model_history [OF assms(2)] assms(1) have "vs_id s' = Some v"
    by (auto split: sum.splits if_splits)
  with rag_call_store [OF assms(1) rc] l show ?thesis by simp
qed

lemma investor_summary_eq:
  "chat_history s = Some h \<Longrightarrow>
     investor_summary c s log =
       (case rag_call c s log (h @ [\<lparr>role = ''user'', content = PStr investor_prompt\<rparr>])
               investor_instructions of
          (r, log') \<Rightarrow> (r, s, log'))"
  by (simp add: investor_summary_def copy_history)

lemma investor_summary_store:
  assumes "vs_id s = Some v" "investor_summary c s log = (r, s', log')"
  shows "s' = s \<and> (\<exists>new. log' = log @ new \<and> only_store v new)"
proof (cases "chat_history s")
  case None
  with assms have "s' = s" "log' = log @ []" by (simp_all add: investor_summary_def)
  then show ?thesis using only_store_Nil by blast
next
  case (Some h)
  let ?msgs = "h @ [\<lparr>role = ''user'', content = PStr investor_prompt\<rparr>]"
  obtain r0 log0 where rc: "rag_call c s log ?msgs investor_instructions = (r0, log0)"
    by (cases "rag_call c s log ?msgs investor_instructions")
  with investor_summary_eq [OF Some, of c log] assms(2) have "s' = s" "log' = log0"
    by simp_all
  with rag_call_store [OF assms(1) rc] show ?thesis by simp
qed

lemma summary_section_store:
  assumes "vs_id s = Some v" "summary_section c pressed s log = (out, s', log')"
  shows "s' = s \<and> (\<exists>new. log' = log @ new \<and> only_store v new)"
proof (cases pressed)
  case False
  with assms have "s' = s" "log' = log @ []" by (simp_all add: summary_section_def)
  then show ?thesis using only_store_Nil by blast
next
  case True
  obtain r s1 log1 where i: "investor_summary c s log = (r, s1, log1)"
    by (cases "investor_summary c s log")
  with True assms(2) have "s' = s1" "log' = log1"
    by (auto simp: summary_section_def split: sum.splits)
  with investor_summary_store [OF assms(1) i] show ?thesis by simp
qed

lemma chat_and_summary_store:
  assumes "vs_id s = Some v" "chat_and_summary c ui s log = (out, s', log')"
  shows "vs_id s' = Some v \<and> (\<exists>new. log' = log @ new \<and> only_store v new)"
proof -
  have stop: ?thesis if "s' = s" "log' = log"
    using that assms(1) only_store_Nil [of v] by auto
  show ?thesis
  proof (cases "indexed_filenames s")
    case None
    with assms(2) show ?thesis by (intro stop) (simp_all add: chat_and_summary_def)
  next
    case names: (Some names)
    show ?thesis
    proof (cases "names = {}")
      case True
      with names assms(2) show ?thesis by (intro stop) (simp_all add: chat_and_summary_def)
    next
      case ne: False
      show ?thesis
      proof (cases "chat_history s")
        case None
        with names ne assms(2) show ?thesis
          by (intro stop) (simp_all add: chat_and_summary_def)
      next
        case h: (Some h)
        show ?thesis
        proof (cases "chat_section c (follow_up ui) s log")
          case None
          with names ne h assms(2) have "summary_section c (button ui) s log = (out, s', log')"
            by (simp add: chat_and_summary_def)
          from summary_section_store [OF assms(1) this] assms(1) show ?thesis by simp
        next
          case (Some t)
          obtain r s1 log1 where t: "t = (r, s1, log1)" by (cases t)
          from Some t obtain q where
            a: "ask_model c s log q chat_instructions True = (r, s1, log1)"
            by (auto simp: chat_section_def split: option.splits if_splits)
          from names ne h Some t assms(2) have "s' = s1" "log' = log1"
            by (auto simp: chat_and_summary_def split: sum.splits)
          with ask_model_store [OF assms(1) a] show ?thesis by simp
        qed
      qed
    qed
  qed
qed

lemma index_file_store:
  assumes "vs_id s = Some v" "index_file c f (s, n, log) = (eo, s', n', log')"
  shows "vs_id s' = Some v \<and> (\<exists>new. log' = log @ new \<and> only_store v new)"
proof -
  from index_file_frame [OF assms(2)] assms(1) have v: "vs_id s' = Some v" by simp
  from assms have "\<exists>new. log' = log @ new \<and> only_store v new"
    by (auto simp: index_file_def Let_def only_store_def
        split: option.splits sum.splits if_splits)
  with v show ?thesis by simp
qed

lemma index_loop_store:
  "vs_id s = Some v \<Longrightarrow> index_loop c fs (s, n, log) = (eo, s', n', log') \<Longrightarrow>
     vs_id s' = Some v \<and> (\<exists>new. log' = log @ new \<and> only_store v new)"
proof (induction fs arbitrary: s n log)
  case Nil
  then show ?case using only_store_Nil [of v] by auto
next
  case (Cons f fs)
  obtain eo1 s1 n1 log1 where i: "index_file c f (s, n, log) = (eo1, s1, n1, log1)"
    by (cases "index_file c f (s, n, log)")
  from index_file_store [OF Cons.prems(1) i] obtain new1 where
    s1: "vs_id s1 = Some v" and l1: "log1 = log @ new1" "only_store v new1" by blast
  show ?case
  proof (cases eo1)
    case None
    with Cons.prems(2) i have "index_loop c fs (s1, n1, log1) = (eo, s', n', log')" by simp
    from Cons.IH [OF s1 this] obtain new2 where
      "vs_id s' = Some v" "log' = log1 @ new2" "only_store v new2" by blast
    with l1 have "vs_id s' = Some v \<and> log' = log @ (new1 @ new2) \<and> only_store v (new1 @ new2)"
      by (simp add: only_store_append)
    then show ?thesis by blast
  next
    case (Some e)
    with Cons.prems(2) i have "s' = s1" "log' = log1" by simp_all
    with s1 l1 show ?thesis by blast
  qed
qed

lemma upload_section_store:
  assumes "vs_id s = Some v" "upload_section c files s log = (eo, s', n', log')"
  shows "vs_id s' = Some v \<and> (\<exists>new. log' = log @ new \<and> only_store v new)"
proof (cases "files = []")
  case True
  with assms have "s' = s" "log' = log @ []" by (simp_all add: upload_section_def)
  with assms(1) show ?thesis using only_store_Nil by blast
next
  case False
  with assms(2) have "index_loop c files (s, 0, log) = (eo, s', n', log')"
    by (simp add: upload_section_def)
  from index_loop_store [OF assms(1) this] show ?thesis .
qed

lemma init_session_assigned:
  "vs_id s = Some v \<Longrightarrow> init_session c s log = (None, init_defaults s, log)"
  by (simp add: init_session_def init_vs_id_def)

lemma script_run_cases:
  assumes "script_run c ui s log = (out, s', log')"
  obtains
    (init_raised) e where "init_session c s log = (Some e, s', log')" "out = Raised e"
  | (upload_raised) e s1 log1 n where "init_session c s log = (None, s1, log1)"
      "upload_section c (uploaded_files ui) s1 log1 = (Some e, s', n, log')" "out = Raised e"
  | (model_raised) e s1 log1 n where "init_session c s log = (None, s1, log1)"
      "upload_section c (uploaded_files ui) s1 log1 = (None, s', n, log')"
      "model_section (selectbox ui) s' = Inl e" "out = Raised e"
  | (reached) s1 log1 s2 n log2 s3 where "init_session c s log = (None, s1, log1)"
      "upload_section c (uploaded_files ui) s1 log1 = (None, s2, n, log2)"
      "model_section (selectbox ui) s2 = Inr s3"
      "chat_and_summary c ui s3 log2 = (out, s', log')"
proof -
  obtain eo1 s1 log1 where i: "init_session c s log = (eo1, s1, log1)"
    by (cases "init_session c s log")
  show ?thesis
  proof (cases eo1)
    case (Some e)
    with assms i show ?thesis by (intro init_raised [of e]) (simp_all add: script_run_def)
  next
    case None
    obtain eo2 s2 n2 log2 where
      u: "upload_section c (uploaded_files ui) s1 log1 = (eo2, s2, n2, log2)"
      by (cases "upload_section c (uploaded_files ui) s1 log1")
    show ?thesis
    proof (cases eo2)
      case (Some e)
      with assms i None u show ?thesis
        by (intro upload_raised [of s1 log1 e n2]) (simp_all add: script_run_def)
    next
      case n2: None
      show ?thesis
      proof (cases "model_section (selectbox ui) s2")
        case (Inl e)
        with assms i None u n2 show ?thesis
          by (intro model_raised [of s1 log1 n2 e]) (simp_all add: script_run_def)
      next
        case (Inr s3)
        with assms i None u n2 show ?thesis
          by (intro reached [of s1 log1 s2 n2 log2 s3]) (simp_all add: script_run_def)
      qed
    qed
  qed
qed

lemma vs_id_init_defaults: "vs_id (init_defaults s) = vs_id s"
  by (simp add: init_defaults_def)

lemma script_run_store:
  assumes v: "vs_id s = Some v" and r: "script_run c ui s log = (out, s', log')"
  shows "vs_id s' = Some v \<and> (\<exists>new. log' = log @ new \<and> only_store v new)"
proof -
  note i = init_session_assigned [OF v, of c log]
  from v have v1: "vs_id (init_defaults s) = Some v" by (simp add: vs_id_init_defaults)
  from r show ?thesis
  proof (cases rule: script_run_cases)
    case (init_raised e)
    with i show ?thesis by simp
  next
    case (upload_raised e s1 log1 n)
    with i have "upload_section c (uploaded_files ui) (init_defaults s) log = (Some e, s', n, log')"
      by simp
    from upload_section_store [OF v1 this] show ?thesis .
  next
    case (model_raised e s1 log1 n)
    with i have "upload_section c (uploaded_files ui) (init_defaults s) log = (None, s', n, log')"
      by simp
    from upload_section_store [OF v1 this] show ?thesis .
  next
    case (reached s1 log1 s2 n log2 s3)
    with i have "upload_section c (uploaded_files ui) (init_defaults s) log = (None, s2, n, log2)"
      by simp
    from upload_section_store [OF v1 this] obtain new1 where
      s2: "vs_id s2 = Some v" and l2: "log2 = log @ new1" "only_store v new1" by blast
    from model_section_frame [OF reached(3)] s2 have s3: "vs_id s3 = Some v" by simp
    from chat_and_summary_store [OF s3 reached(4)] obtain new2 where
      "vs_id s' = Some v" "log' = log2 @ new2" "only_store v new2" by blast
    with l2 have "vs_id s' = Some v \<and> log' = log @ (new1 @ new2) \<and> only_store v (new1 @ new2)"
      by (simp add: only_store_append)
    then show ?thesis by blast
  qed
qed

lemma script_run_creates:
  assumes "vs_id s = None" "vector_stores_create c log store_name = Inr v"
  shows "script_run c ui s log =
     script_run c ui (s\<lparr>vs_id := Some v\<rparr>) (log @ [VectorStoresCreate store_name])"
  using assms by (simp add: script_run_def init_session_def init_vs_id_def)

lemma script_run_create_fails:
  assumes "vs_id s = None" "vector_stores_create c log store_name = Inl e"
  shows "script_run c ui s log = (Raised e, s, log @ [VectorStoresCreate store_name])"
  using assms by (simp add: script_run_def init_session_def init_vs_id_def)

lemma creation_uses_store: "list_all is_store_creation log \<Longrightarrow> list_all (uses_store v) log"
proof (induction log)
  case Nil
  then show ?case by simp
next
  case (Cons call log)
  then show ?case by (cases call) simp_all
qed

lemma script_run_consistent:
  assumes inv: "store_consistent s log" and r: "script_run c ui s log = (out, s', log')"
  shows "store_consistent s' log'"
proof (cases "vs_id s")
  case (Some v)
  from script_run_store [OF Some r] obtain new where
    "vs_id s' = Some v" "log' = log @ new" "only_store v new" by blast
  with inv Some show ?thesis by (simp add: store_consistent_def only_store_def)
next
  case None
  with inv have cr: "list_all is_store_creation log" by (simp add: store_consistent_def)
  show ?thesis
  proof (cases "vector_stores_create c log store_name")
    case (Inl e)
    from script_run_create_fails [OF None Inl, of ui] r
    have "s' = s" "log' = log @ [VectorStoresCreate store_name]" by simp_all
    with None cr show ?thesis by (simp add: store_consistent_def)
  next
    case (Inr v)
    let ?s = "s\<lparr>vs_id := Some v\<rparr>"
    from script_run_creates [OF None Inr, of ui] r
    have r': "script_run c ui ?s (log @ [VectorStoresCreate store_name]) = (out, s', log')"
      by simp
    have "vs_id ?s = Some v" by simp
    from script_run_store [OF this r'] obtain new where
      "vs_id s' = Some v" "log' = (log @ [VectorStoresCreate store_name]) @ new"
      "only_store v new" by blast
    with creation_uses_store [OF cr, of v] show ?thesis
      by (simp add: store_consistent_def only_store_def)
  qed
qed

lemma session_runs_store:
  "vs_id s = Some v \<Longrightarrow> session_runs c uis (s, log) = (outs, s', log') \<Longrightarrow>
     vs_id s' = Some v \<and> (\<exists>new. log' = log @ new \<and> only_store v new)"
proof (induction uis arbitrary: s log outs)
  case Nil
  then show ?case using only_store_Nil [of v] by auto
next
  case (Cons ui uis)
  obtain out s1 log1 where r: "script_run c ui s log = (out, s1, log1)"
    by (cases "script_run c ui s log")
  obtain outs1 s2 log2 where rs0: "session_runs c uis (s1, log1) = (outs1, s2, log2)"
    by (cases "session_runs c uis (s1, log1)")
  from Cons.prems(2) r rs0 have "s' = s2" "log' = log2" by simp_all
  with rs0 have rs: "session_runs c uis (s1, log1) = (outs1, s', log')" by simp
  from script_run_store [OF Cons.prems(1) r] obtain new1 where
    s1: "vs_id s1 = Some v" and l1: "log1 = log @ new1" "only_store v new1" by blast
  from Cons.IH [OF s1 rs] obtain new2 where
    "vs_id s' = Some v" "log' = log1 @ new2" "only_store v new2" by blast
  with l1 have "vs_id s' = Some v \<and> log' = log @ (new1 @ new2) \<and> only_store v (new1 @ new2)"
    by (simp add: only_store_append)
  then show ?case by blast
qed

lemma session_runs_consistent:
  "store_consistent s log \<Longrightarrow> session_runs c uis (s, log) = (outs, s', log') \<Longrightarrow>
     store_consistent s' log'"
proof (induction uis arbitrary: s log outs)
  case Nil
  then show ?case by simp
next
  case (Cons ui uis)
  obtain out s1 log1 where r: "script_run c ui s log = (out, s1, log1)"
    by (cases "script_run c ui s log")
  obtain outs1 s2 log2 where rs0: "session_runs c uis (s1, log1) = (outs1, s2, log2)"
    by (cases "session_runs c uis (s1, log1)")
  from Cons.prems(2) r rs0 have "s' = s2" "log' = log2" by simp_all
  with rs0 have rs: "session_runs c uis (s1, log1) = (outs1, s', log')" by simp
  from script_run_consistent [OF Cons.prems(1) r] have "store_consistent s1 log1" .
  from Cons.IH [OF this rs] show ?case .
qed

text \<open>
  Claim C9. Once \<^verbatim>\<open>vs_id\<close> is set, no run of the script (and no sequence of runs)
  changes it or creates another store, and every request and attachment made names it.
  A run that finds the key absent and creates the store sets it. From a new session,
  after any runs, the log names no store but the one assigned.
\<close>

theorem vs_id_assigned_once:
  "(vs_id s = Some v \<and> script_run c ui s log = (out, s1, log1) \<longrightarrow>
      vs_id s1 = Some v \<and> (\<exists>new. log1 = log @ new \<and> only_store v new)) \<and>
   (vs_id s = Some v \<and> session_runs c uis (s, log) = (outs, s', log') \<longrightarrow>
      vs_id s' = Some v \<and> (\<exists>new. log' = log @ new \<and> only_store v new)) \<and>
   (vs_id s = None \<and> vector_stores_create c log store_name = Inr v \<and>
    script_run c ui s log = (out, s1, log1) \<longrightarrow> vs_id s1 = Some v) \<and>
   (session_runs c uis (new_session, []) = (outs, s', log') \<longrightarrow> store_consistent s' log')"
proof (intro conjI impI)
  assume "vs_id s = Some v \<and> script_run c ui s log = (out, s1, log1)"
  then show "vs_id s1 = Some v" and "\<exists>new. log1 = log @ new \<and> only_store v new"
    using script_run_store [of s v c ui log out s1 log1] by simp_all
next
  assume "vs_id s = Some v \<and> session_runs c uis (s, log) = (outs, s', log')"
  then show "vs_id s' = Some v" and "\<exists>new. log' = log @ new \<and> only_store v new"
    using session_runs_store [of s v c uis log outs s' log'] by simp_all
next
  assume a: "vs_id s = None \<and> vector_stores_create c log store_name = Inr v \<and>
    script_run c ui s log = (out, s1, log1)"
  then have "script_run c ui (s\<lparr>vs_id := Some v\<rparr>) (log @ [VectorStoresCreate store_name]) =
      (out, s1, log1)"
    using script_run_creates [of s c log v ui] by simp
  from script_run_store [OF _ this] show "vs_id s1 = Some v" by simp
next
  assume "session_runs c uis (new_session, []) = (outs, s', log')"
  moreover have "store_consistent new_session []"
    by (simp add: store_consistent_def new_session_def)
  ultimately show "store_consistent s' log'" by (rule session_runs_consistent [rotated])
qed

theorem vs_id_assigned_once_witness:
  "vs_id (fst (snd (session_runs (replying_client cited_reply)
       [upload_run, chat_run, summary_run] (new_session, [])))) = Some ''vs_1'' \<and>
   store_consistent
     (fst (snd (session_runs (replying_client cited_reply)
       [upload_run, chat_run, summary_run] (new_session, []))))
     (snd (snd (session_runs (replying_client cited_reply)
       [upload_run, chat_run, summary_run] (new_session, [])))) \<and>
   vs_id (fst (snd (script_run (replying_client cited_reply) upload_run new_session [])))
     = Some ''vs_1'' \<and>
   vs_id (fst (snd (script_run (replying_client cited_reply) chat_run fresh_session [])))
     = Some ''vs_1'' \<and>
   (\<exists>new. snd (snd (script_run (replying_client cited_reply) chat_run fresh_session [])) = new \<and>
      only_store ''vs_1'' new) \<and>
   vs_id (fst (snd (session_runs refusing_client [upload_run, summary_run] (fresh_session, []))))
     = Some ''vs_1'' \<and>
   (\<exists>new. snd (snd (session_runs refusing_client [upload_run, summary_run] (fresh_session, [])))
        = new \<and> only_store ''vs_1'' new)"
proof -
  let ?c = "replying_client cited_reply"
  let ?R = "session_runs ?c [upload_run, chat_run, summary_run] (new_session, [])"
  let ?U = "script_run ?c upload_run new_session []"
  let ?C = "script_run ?c chat_run fresh_session []"
  let ?S = "session_runs refusing_client [upload_run, summary_run] (fresh_session, [])"
  have v: "vs_id (fst (snd ?R)) = Some ''vs_1''" by code_simp
  have k: "store_consistent (fst (snd ?R)) (snd (snd ?R))"
    using vs_id_assigned_once [of _ _ ?c _ _ _ _ _ "[upload_run, chat_run, summary_run]" "fst ?R"
        "fst (snd ?R)" "snd (snd ?R)"] by simp
  have u: "vs_id (fst (snd ?U)) = Some ''vs_1''"
    using vs_id_assigned_once [of new_session "''vs_1''" ?c upload_run "[]" "fst ?U" "fst (snd ?U)" "snd (snd ?U)"]
    by (simp add: new_session_def replying_client_def)
  have c: "vs_id (fst (snd ?C)) = Some ''vs_1'' \<and>
      (\<exists>new. snd (snd ?C) = new \<and> only_store ''vs_1'' new)"
    using vs_id_assigned_once [of fresh_session "''vs_1''" ?c chat_run "[]" "fst ?C" "fst (snd ?C)" "snd (snd ?C)"]
    by (simp add: fresh_session_def)
  have s: "vs_id (fst (snd ?S)) = Some ''vs_1'' \<and>
      (\<exists>new. snd (snd ?S) = new \<and> only_store ''vs_1'' new)"
    using vs_id_assigned_once [of fresh_session "''vs_1''" refusing_client _ "[]" _ _ _
        "[upload_run, summary_run]" "fst ?S" "fst (snd ?S)" "snd (snd ?S)"]
    by (simp add: fresh_session_def)
  from v k u c s show ?thesis by simp
qed

section \<open>The investor summary\<close>

lemma script_run_done_history:
  assumes "script_run c ui s log = (Done memo, s', log')"
  shows "chat_history s' = Some (history_of s)"
  using assms
proof (cases rule: script_run_cases)
  case (reached s1 log1 s2 n log2 s3)
  from init_session_ready [OF reached(1)] have "chat_history s1 = Some (history_of s)" by simp
  with upload_section_frame [OF reached(2)] have "chat_history s2 = Some (history_of s)" by simp
  with model_section_frame [OF reached(3)] have "chat_history s3 = Some (history_of s)" by simp
  with chat_and_summary_history [OF reached(4)] show ?thesis by simp
qed simp_all

lemma investor_summary_log:
  assumes "chat_history s = Some h" "model_choice s = Some m" "vs_id s = Some v"
  shows "snd (snd (investor_summary c s log)) =
       log @ [ResponsesCreate
                (rag_request m v (h @ [\<lparr>role = ''user'', content = PStr investor_prompt\<rparr>])
                   investor_instructions)]"
proof -
  let ?msgs = "h @ [\<lparr>role = ''user'', content = PStr investor_prompt\<rparr>]"
  obtain r0 log0 where rc: "rag_call c s log ?msgs investor_instructions = (r0, log0)"
    by (cases "rag_call c s log ?msgs investor_instructions")
  from rag_call_log [OF assms(2,3), of c log ?msgs investor_instructions] rc
  have "log0 = log @ [ResponsesCreate (rag_request m v ?msgs investor_instructions)]" by simp
  with rc show ?thesis by (simp add: investor_summary_eq [OF assms(1)])
qed

text \<open>
  Claim C7. \<^verbatim>\<open>ask_model\<close> with \<^verbatim>\<open>update_history=False\<close> and the handler of the summary
  button return the session state they were given; the handler's request carries the
  history followed by the memo prompt; and a run of the script that reaches its last
  line (with or without a memo) leaves the history as it was.
\<close>

theorem summary_leaves_chat_history:
  "(ask_model c s log question instr False = (r, s1, log1) \<longrightarrow> s1 = s) \<and>
   (investor_summary c s log = (r, s1, log1) \<longrightarrow> s1 = s) \<and>
   (chat_history s = Some h \<and> model_choice s = Some m \<and> vs_id s = Some v \<longrightarrow>
      snd (snd (investor_summary c s log)) =
        log @ [ResponsesCreate
                 (rag_request m v (h @ [\<lparr>role = ''user'', content = PStr investor_prompt\<rparr>])
                    investor_instructions)]) \<and>
   (script_run c ui s log = (Done memo, s', log') \<longrightarrow>
      chat_history s' = Some (history_of s) \<and> history_of s' = history_of s)"
proof (intro conjI impI)
  assume "ask_model c s log question instr False = (r, s1, log1)"
  from ask_model_history [OF this] show "s1 = s" by (auto split: sum.splits)
next
  assume "investor_summary c s log = (r, s1, log1)"
  then show "s1 = s" by (rule investor_summary_state)
next
  assume "chat_history s = Some h \<and> model_choice s = Some m \<and> vs_id s = Some v"
  then show "snd (snd (investor_summary c s log)) =
        log @ [ResponsesCreate
                 (rag_request m v (h @ [\<lparr>role = ''user'', content = PStr investor_prompt\<rparr>])
                    investor_instructions)]"
    by (simp add: investor_summary_log)
next
  assume "script_run c ui s log = (Done memo, s', log')"
  then show "chat_history s' = Some (history_of s)" by (rule script_run_done_history)
  then show "history_of s' = history_of s" by (simp add: history_of_def)
qed

theorem summary_leaves_chat_history_witness:
  "fst (snd (ask_model (replying_client cited_reply) ready_session [] ''Any leaks?''
       chat_instructions False)) = ready_session \<and>
   fst (snd (investor_summary (replying_client cited_reply) ready_session [])) = ready_session \<and>
   snd (snd (investor_summary (replying_client cited_reply) ready_session [])) =
     [ResponsesCreate
        (rag_request ''gpt-5-mini'' ''vs_1''
           [\<lparr>role = ''user'', content = PStr investor_prompt\<rparr>] investor_instructions)] \<and>
   fst (script_run (replying_client cited_reply) summary_run ready_session []) =
     Done (Some (PStr ''Roof is in fair condition.'', [PStr ''a.pdf'', PStr ''b.pdf''])) \<and>
   chat_history (fst (snd (script_run (replying_client cited_reply) summary_run ready_session [])))
     = Some []"
proof -
  let ?c = "replying_client cited_reply"
  let ?A = "ask_model ?c ready_session [] ''Any leaks?'' chat_instructions False"
  let ?I = "investor_summary ?c ready_session []"
  let ?R = "script_run ?c summary_run ready_session []"
  let ?memo = "Some (PStr ''Roof is in fair condition.'', [PStr ''a.pdf'', PStr ''b.pdf''])"
  have a: "fst (snd ?A) = ready_session"
    using summary_leaves_chat_history [of ?c ready_session "[]" "''Any leaks?''" chat_instructions "fst ?A" "fst (snd ?A)"
        "snd (snd ?A)"] by simp
  have i: "fst (snd ?I) = ready_session"
    using summary_leaves_chat_history [of ?c ready_session "[]" _ _ "fst ?I" "fst (snd ?I)" "snd (snd ?I)"] by simp
  have l: "snd (snd ?I) = [ResponsesCreate
        (rag_request ''gpt-5-mini'' ''vs_1''
           [\<lparr>role = ''user'', content = PStr investor_prompt\<rparr>] investor_instructions)]"
    using summary_leaves_chat_history [of ?c ready_session "[]" _ _ _ _ _ "[]" "''gpt-5-mini''" "''vs_1''"]
    by (simp add: ready_session_def)
  have d: "fst ?R = Done ?memo" by code_simp
  then have "?R = (Done ?memo, fst (snd ?R), snd (snd ?R))"
    using collapse3 [of ?R] by simp
  with summary_leaves_chat_history [of ?c ready_session "[]" _ _ _ _ _ _ _ _ summary_run ?memo "fst (snd ?R)" "snd (snd ?R)"]
  have h: "chat_history (fst (snd ?R)) = Some []"
    by (simp add: history_of_def ready_session_def)
  from a i l d h show ?thesis by simp
qed

end
